theory Spec2Isabelle
  imports Main "HOL-Library.Product_Lexorder" "HOL-Library.Multiset"
begin

section \<open>TextCleaner: the cleaning engine and its edit replay model\<close>

text \<open>
  A shallow embedding of \<^verbatim>\<open>src/textcleaner/cleaner.py\<close>. Python strings are sequences of
  Unicode code points; the functions that never inspect a character (edit distance,
  differencing, replay) are modelled over arbitrary lists, the others over lists of code
  points. An exception is a value \<open>Inl\<close> of the sum type \<open>error + 'a\<close>. The exceptions of
  \<^verbatim>\<open>normalize_charset\<close> and \<^verbatim>\<open>apply_edits\<close> are both Python's \<^verbatim>\<open>ValueError\<close>, told apart
  by their message; \<^verbatim>\<open>UnicodeEncodeError\<close> is what encoding a surrogate to UTF-8 raises.
\<close>

type_synonym codepoint = nat
type_synonym str = "codepoint list"

datatype error = ValueError string | UnicodeEncodeError

subsection \<open>\<^verbatim>\<open>_edit_distance\<close>\<close>

text \<open>
  \<^verbatim>\<open>
  def _edit_distance(a, b):
      if a == b: return 0
      if not a: return len(b)
      if not b: return len(a)
      prev = list(range(len(b) + 1))
      for i, char_a in enumerate(a, start=1):
          current = [i]
          for j, char_b in enumerate(b, start=1):
              insert_cost = current[j - 1] + 1
              delete_cost = prev[j] + 1
              subst_cost = prev[j - 1] + (char_a != char_b)
              current.append(min(insert_cost, delete_cost, subst_cost))
          prev = current
      return prev[-1]
  \<close>
  The body of the inner loop is \<open>inner_step\<close>, the body of the outer loop \<open>outer_step\<close>.
  Every row has \<open>len(b) + 1\<close> entries (\<open>outer_loop_row\<close> below), so each list read of the
  source is in range and no \<^verbatim>\<open>IndexError\<close> branch is needed.
\<close>

definition inner_step :: "nat list \<Rightarrow> 'a \<Rightarrow> nat list \<Rightarrow> nat \<times> 'a \<Rightarrow> nat list" where
  "inner_step prev char_a current jb =
     (case jb of (j, char_b) \<Rightarrow>
        let insert_cost = current ! (j - 1) + 1;
            delete_cost = prev ! j + 1;
            subst_cost = prev ! (j - 1) + (if char_a \<noteq> char_b then 1 else 0)
        in current @ [min (min insert_cost delete_cost) subst_cost])"

definition outer_step :: "'a list \<Rightarrow> nat list \<Rightarrow> nat \<times> 'a \<Rightarrow> nat list" where
  "outer_step b prev ia =
     (case ia of (i, char_a) \<Rightarrow> foldl (inner_step prev char_a) [i] (enumerate 1 b))"

definition edit_distance :: "'a list \<Rightarrow> 'a list \<Rightarrow> nat" where
  "edit_distance a b =
     (if a = b then 0
      else if a = [] then length b
      else if b = [] then length a
      else last (foldl (outer_step b) [0..<length b + 1] (enumerate 1 a)))"

text \<open>
  The specification's words: the classic edit distance, where an insertion, a deletion
  and a substitution cost 1 each.
\<close>

fun levenshtein :: "'a list \<Rightarrow> 'a list \<Rightarrow> nat" where
  "levenshtein [] ys = length ys"
| "levenshtein xs [] = length xs"
| "levenshtein (x # xs) (y # ys) =
     min (min (levenshtein xs (y # ys) + 1) (levenshtein (x # xs) ys + 1))
         (levenshtein xs ys + (if x = y then 0 else 1))"

text \<open>
  Edit scripts with their cost, used to show that \<open>levenshtein\<close> is the least cost of
  turning one string into the other and does not depend on the reading direction.
\<close>

inductive transforms :: "'a list \<Rightarrow> 'a list \<Rightarrow> nat \<Rightarrow> bool" where
  t_nil: "transforms [] [] 0"
| t_del: "transforms a b n \<Longrightarrow> transforms (x # a) b (Suc n)"
| t_ins: "transforms a b n \<Longrightarrow> transforms a (y # b) (Suc n)"
| t_keep: "transforms a b n \<Longrightarrow> transforms (x # a) (x # b) n"
| t_sub: "transforms a b n \<Longrightarrow> transforms (x # a) (y # b) (Suc n)"

definition lev_row :: "'a list \<Rightarrow> 'a list \<Rightarrow> nat \<Rightarrow> nat \<Rightarrow> nat list" where
  "lev_row a b i m = map (\<lambda>j. levenshtein (take i a) (take j b)) [0..<m + 1]"


subsection \<open>Properties of the edit distance\<close>

lemma transforms_Nil_left: "transforms [] b (length b)"
  by (induction b) (auto intro: transforms.intros)

lemma transforms_Nil_right: "transforms a [] (length a)"
  by (induction a) (auto intro: transforms.intros)

lemma transforms_levenshtein: "transforms a b (levenshtein a b)"
proof (induction a b rule: levenshtein.induct)
  case (1 ys)
  then show ?case by (simp add: transforms_Nil_left)
next
  case (2 v va)
  then show ?case using transforms_Nil_right[of "v # va"] by simp
next
  case (3 x xs y ys)
  let ?d = "levenshtein xs (y # ys) + 1"
  let ?i = "levenshtein (x # xs) ys + 1"
  let ?s = "levenshtein xs ys + (if x = y then 0 else 1)"
  have d: "transforms (x # xs) (y # ys) ?d" using 3(1) t_del by fastforce
  have i: "transforms (x # xs) (y # ys) ?i" using 3(2) t_ins by fastforce
  have s: "transforms (x # xs) (y # ys) ?s"
    using 3(3) t_sub[of xs ys _ x y] t_keep[of xs ys _ x] by (cases "x = y") auto
  have "levenshtein (x # xs) (y # ys) = ?d \<or> levenshtein (x # xs) (y # ys) = ?i
        \<or> levenshtein (x # xs) (y # ys) = ?s"
    by (simp add: min_def)
  with d i s show ?case by metis
qed

lemma levenshtein_Nil_right [simp]: "levenshtein xs [] = length xs"
  by (cases xs) auto

lemma levenshtein_del_le: "levenshtein (x # a) b \<le> Suc (levenshtein a b)"
  by (cases b) auto

lemma levenshtein_ins_le: "levenshtein a (y # b) \<le> Suc (levenshtein a b)"
  by (cases a) auto

lemma levenshtein_sub_le: "levenshtein (x # a) (y # b) \<le> Suc (levenshtein a b)"
  by (simp add: min.coboundedI2)

lemma levenshtein_keep_le: "levenshtein (x # a) (x # b) \<le> levenshtein a b"
  by simp

lemma levenshtein_least: "transforms a b n \<Longrightarrow> levenshtein a b \<le> n"
proof (induction rule: transforms.induct)
  case t_nil
  then show ?case by simp
next
  case (t_del a b n x)
  then show ?case using levenshtein_del_le[of x a b] by linarith
next
  case (t_ins a b n y)
  then show ?case using levenshtein_ins_le[of a y b] by linarith
next
  case (t_keep a b n x)
  then show ?case using levenshtein_keep_le[of x a b] by linarith
next
  case (t_sub a b n x y)
  then show ?case using levenshtein_sub_le[of x a y b] by linarith
qed

lemma transforms_snoc_del: "transforms a b n \<Longrightarrow> transforms (a @ [x]) b (Suc n)"
  by (induction rule: transforms.induct) (auto intro: transforms.intros)

lemma transforms_snoc_ins: "transforms a b n \<Longrightarrow> transforms a (b @ [y]) (Suc n)"
  by (induction rule: transforms.induct) (auto intro: transforms.intros)

lemma transforms_snoc_keep: "transforms a b n \<Longrightarrow> transforms (a @ [x]) (b @ [x]) n"
  by (induction rule: transforms.induct) (auto intro: transforms.intros)

lemma transforms_snoc_sub: "transforms a b n \<Longrightarrow> transforms (a @ [x]) (b @ [y]) (Suc n)"
  by (induction rule: transforms.induct) (auto intro: transforms.intros)

lemma transforms_rev: "transforms a b n \<Longrightarrow> transforms (rev a) (rev b) n"
  by (induction rule: transforms.induct)
     (auto intro: transforms.intros transforms_snoc_del transforms_snoc_ins
        transforms_snoc_keep transforms_snoc_sub)

lemma transforms_sym: "transforms a b n \<Longrightarrow> transforms b a n"
  by (induction rule: transforms.induct) (auto intro: transforms.intros)

lemma levenshtein_rev: "levenshtein (rev a) (rev b) = levenshtein a b"
proof (rule antisym)
  show "levenshtein (rev a) (rev b) \<le> levenshtein a b"
    by (rule levenshtein_least[OF transforms_rev[OF transforms_levenshtein]])
  have "levenshtein (rev (rev a)) (rev (rev b)) \<le> levenshtein (rev a) (rev b)"
    by (rule levenshtein_least[OF transforms_rev[OF transforms_levenshtein]])
  then show "levenshtein a b \<le> levenshtein (rev a) (rev b)" by simp
qed

lemma levenshtein_sym: "levenshtein a b = levenshtein b a"
  by (rule antisym; rule levenshtein_least[OF transforms_sym[OF transforms_levenshtein]])

lemma levenshtein_snoc:
  "levenshtein (xs @ [x]) (ys @ [y]) =
     min (min (levenshtein xs (ys @ [y]) + 1) (levenshtein (xs @ [x]) ys + 1))
         (levenshtein xs ys + (if x = y then 0 else 1))"
proof -
  have "levenshtein (xs @ [x]) (ys @ [y]) = levenshtein (x # rev xs) (y # rev ys)"
    using levenshtein_rev[of "xs @ [x]" "ys @ [y]"] by simp
  also have "\<dots> = min (min (levenshtein (rev xs) (rev (ys @ [y])) + 1)
                          (levenshtein (rev (xs @ [x])) (rev ys) + 1))
                     (levenshtein (rev xs) (rev ys) + (if x = y then 0 else 1))"
    by simp
  finally show ?thesis by (simp only: levenshtein_rev)
qed

lemma levenshtein_refl [simp]: "levenshtein a a = 0"
  by (induction a) auto

lemma levenshtein_length_diff: "length a - length b \<le> levenshtein a b"
  by (induction a b rule: levenshtein.induct) auto

lemma levenshtein_zero: "levenshtein a b = 0 \<Longrightarrow> a = b"
proof (induction a b rule: levenshtein.induct)
  case (3 x xs y ys)
  then show ?case by (auto simp: min_def split: if_splits)
qed auto

lemma levenshtein_le_sum: "levenshtein a b \<le> length a + length b"
  by (induction a b rule: levenshtein.induct) auto

lemma levenshtein_triangle: "levenshtein a c \<le> levenshtein a b + levenshtein b c"
proof (induction "length a + length b + length c" arbitrary: a b c rule: less_induct)
  case less
  show ?case
  proof (cases a)
    case Nil
    have "length c - length b \<le> levenshtein b c"
      using levenshtein_length_diff[of c b] by (simp add: levenshtein_sym)
    with Nil show ?thesis by simp
  next
    case a: (Cons x a')
    show ?thesis
    proof (cases b)
      case Nil
      then show ?thesis using levenshtein_le_sum[of a c] by simp
    next
      case b: (Cons y b')
      show ?thesis
      proof (cases c)
        case Nil
        then show ?thesis using levenshtein_length_diff[of a b] by simp
      next
        case c: (Cons z c')
        have 1: "levenshtein a' c \<le> levenshtein a' b + levenshtein b c"
          using less[of a' b c] a by simp
        have 2: "levenshtein a c' \<le> levenshtein a b + levenshtein b c'"
          using less[of a b c'] c by simp
        have 3: "levenshtein a c \<le> levenshtein a b' + levenshtein b' c"
          using less[of a b' c] b by simp
        have 4: "levenshtein a c' \<le> levenshtein a b' + levenshtein b' c'"
          using less[of a b' c'] b c by simp
        have 5: "levenshtein a' c \<le> levenshtein a' b' + levenshtein b' c"
          using less[of a' b' c] a b by simp
        have 6: "levenshtein a' c' \<le> levenshtein a' b' + levenshtein b' c'"
          using less[of a' b' c'] a b c by simp
        have u1: "levenshtein a c \<le> levenshtein a' c + 1"
          using levenshtein_del_le[of x a' c] a by simp
        have u2: "levenshtein a c \<le> levenshtein a c' + 1"
          using levenshtein_ins_le[of a z c'] c by simp
        have u3: "levenshtein a c \<le> levenshtein a' c' + (if x = z then 0 else 1)"
          using a c by simp
        have ab: "levenshtein a b = min (min (levenshtein a' b + 1) (levenshtein a b' + 1))
                    (levenshtein a' b' + (if x = y then 0 else 1))"
          using a b by simp
        have bc: "levenshtein b c = min (min (levenshtein b' c + 1) (levenshtein b c' + 1))
                    (levenshtein b' c' + (if y = z then 0 else 1))"
          using b c by simp
        show ?thesis
          using 1 2 3 4 5 6 u1 u2 u3 unfolding ab bc
          by (auto simp: min_def split: if_splits)
      qed
    qed
  qed
qed


lemma inner_loop_row:
  assumes i: "i < length a"
  shows "m \<le> length b \<Longrightarrow>
    foldl (inner_step (lev_row a b i (length b)) (a ! i)) [Suc i] (enumerate 1 (take m b))
      = lev_row a b (Suc i) m"
proof (induction m)
  case 0
  then show ?case using i by (simp add: lev_row_def)
next
  case (Suc m)
  then have m: "m < length b" by simp
  let ?prev = "lev_row a b i (length b)"
  let ?cur = "lev_row a b (Suc i) m"
  have tb: "take (Suc m) b = take m b @ [b ! m]"
    using m by (simp add: take_Suc_conv_app_nth)
  have ta: "take (Suc i) a = take i a @ [a ! i]"
    using i by (simp add: take_Suc_conv_app_nth)
  have en: "enumerate 1 (take (Suc m) b) = enumerate 1 (take m b) @ [(Suc m, b ! m)]"
    using m by (simp add: tb enumerate_append_eq)
  have c1: "?cur ! m = levenshtein (take (Suc i) a) (take m b)"
    unfolding lev_row_def by (simp add: nth_append)
  have p1: "?prev ! Suc m = levenshtein (take i a) (take (Suc m) b)"
    unfolding lev_row_def using m by (simp del: upt_Suc)
  have p0: "?prev ! m = levenshtein (take i a) (take m b)"
    unfolding lev_row_def using m by (simp del: upt_Suc)
  have "foldl (inner_step ?prev (a ! i)) [Suc i] (enumerate 1 (take (Suc m) b))
      = inner_step ?prev (a ! i) ?cur (Suc m, b ! m)"
    unfolding en using Suc m by simp
  also have "\<dots> = ?cur @ [levenshtein (take (Suc i) a) (take (Suc m) b)]"
    unfolding inner_step_def
    by (simp add: c1 p1 p0 Let_def del: levenshtein.simps)
       (simp add: ta tb levenshtein_snoc min.commute del: levenshtein.simps)
  also have "\<dots> = lev_row a b (Suc i) (Suc m)"
    by (simp add: lev_row_def)
  finally show ?case .
qed

lemma outer_loop_row:
  "n \<le> length a \<Longrightarrow>
    foldl (outer_step b) [0..<length b + 1] (enumerate 1 (take n a)) = lev_row a b n (length b)"
proof (induction n)
  case 0
  have "map (\<lambda>j. levenshtein [] (take j b)) [0..<length b + 1] = map (\<lambda>j. j) [0..<length b + 1]"
    by (rule map_cong) auto
  then show ?case by (simp add: lev_row_def del: upt_Suc)
next
  case (Suc n)
  then have n: "n < length a" by simp
  have en: "enumerate 1 (take (Suc n) a) = enumerate 1 (take n a) @ [(Suc n, a ! n)]"
    using n by (simp add: take_Suc_conv_app_nth enumerate_append_eq)
  have "foldl (outer_step b) [0..<length b + 1] (enumerate 1 (take (Suc n) a))
      = outer_step b (lev_row a b n (length b)) (Suc n, a ! n)"
    unfolding en using Suc n by simp
  also have "\<dots> = lev_row a b (Suc n) (length b)"
    using inner_loop_row[OF n, of "length b" b] by (simp add: outer_step_def)
  finally show ?case .
qed

lemma edit_distance_levenshtein: "edit_distance a b = levenshtein a b"
proof -
  have "last (foldl (outer_step b) [0..<length b + 1] (enumerate 1 a)) = levenshtein a b"
    using outer_loop_row[of "length a" a b] by (simp add: lev_row_def)
  then show ?thesis
    by (auto simp: edit_distance_def)
qed

text \<open>
  C9: \<open>_edit_distance\<close> computes the classic Levenshtein distance (unit costs for
  insertion, deletion and substitution); it is symmetric, it is zero exactly when the two
  strings are equal, and it satisfies the triangle inequality.
\<close>

theorem edit_distance_metric:
  "edit_distance a b = levenshtein a b
   \<and> edit_distance a b = edit_distance b a
   \<and> (edit_distance a b = 0) = (a = b)
   \<and> edit_distance a c \<le> edit_distance a b + edit_distance b c"
proof -
  have "levenshtein a b = 0 \<longleftrightarrow> a = b"
    using levenshtein_zero[of a b] by auto
  then show ?thesis
    unfolding edit_distance_levenshtein
    using levenshtein_sym[of a b] levenshtein_triangle[of a c b] by simp
qed

subsection \<open>Python slicing\<close>

text \<open>
  \<^verbatim>\<open>s[lo:hi]\<close> and \<^verbatim>\<open>s[lo:]\<close> on integers of either sign: a negative bound counts from the
  end of the string, and every bound is clamped to \<open>0 .. len(s)\<close>; a slice never raises.
\<close>

definition slice_index :: "nat \<Rightarrow> int \<Rightarrow> nat" where
  "slice_index n i = (if i < 0 then nat (max 0 (i + int n)) else min (nat i) n)"

definition slice :: "'a list \<Rightarrow> int \<Rightarrow> int \<Rightarrow> 'a list" where
  "slice s lo hi = take (slice_index (length s) hi - slice_index (length s) lo)
                        (drop (slice_index (length s) lo) s)"

definition slice_from :: "'a list \<Rightarrow> int \<Rightarrow> 'a list" where
  "slice_from s lo = drop (slice_index (length s) lo) s"

subsection \<open>\<^verbatim>\<open>apply_edits\<close>\<close>

text \<open>
  An edit is the dictionary \<^verbatim>\<open>{"start": i1, "end": i2, "replacement": text}\<close>; the field
  \<^verbatim>\<open>end\<close> is written \<open>end'\<close>. The offsets are Python integers, so they may be negative.
  \<^verbatim>\<open>
  def apply_edits(original, edits):
      result = []
      cursor = 0
      for edit in edits:
          start = int(edit["start"])
          end = int(edit["end"])
          replacement = str(edit["replacement"])
          if start < cursor:
              raise ValueError("Edits overlap or are out of order.")
          result.append(original[cursor:start])
          result.append(replacement)
          cursor = end
      result.append(original[cursor:])
      return "".join(result)
  \<close>
\<close>

record 'a edit =
  start :: int
  end' :: int
  replacement :: "'a list"

fun apply_edits_loop :: "'a list \<Rightarrow> 'a list list \<Rightarrow> int \<Rightarrow> 'a edit list \<Rightarrow> error + 'a list" where
  "apply_edits_loop original result cursor [] =
     Inr (concat (result @ [slice_from original cursor]))"
| "apply_edits_loop original result cursor (e # edits) =
     (if start e < cursor then Inl (ValueError ''Edits overlap or are out of order.'')
      else apply_edits_loop original
             (result @ [slice original cursor (start e)] @ [replacement e]) (end' e) edits)"

definition apply_edits :: "'a list \<Rightarrow> 'a edit list \<Rightarrow> error + 'a list" where
  "apply_edits original edits = apply_edits_loop original [] 0 edits"

text \<open>
  The running cursor when the \<open>k\<close>-th edit is reached (the end of the previous edit, or 0),
  the order check of a whole edit list, and the text a replay writes from a cursor on.
\<close>

definition cursor_at :: "'a edit list \<Rightarrow> nat \<Rightarrow> int" where
  "cursor_at edits k = (if k = 0 then 0 else end' (edits ! (k - 1)))"

fun in_order :: "int \<Rightarrow> 'a edit list \<Rightarrow> bool" where
  "in_order cursor [] = True"
| "in_order cursor (e # edits) = (cursor \<le> start e \<and> in_order (end' e) edits)"

fun replay_text :: "'a list \<Rightarrow> int \<Rightarrow> 'a edit list \<Rightarrow> 'a list" where
  "replay_text original cursor [] = slice_from original cursor"
| "replay_text original cursor (e # edits) =
     slice original cursor (start e) @ replacement e @ replay_text original (end' e) edits"

lemma apply_edits_loop_in_order:
  "in_order cursor edits \<Longrightarrow>
     apply_edits_loop original result cursor edits
       = Inr (concat result @ replay_text original cursor edits)"
  by (induction edits arbitrary: result cursor) auto

lemma apply_edits_loop_out_of_order:
  "\<not> in_order cursor edits \<Longrightarrow>
     apply_edits_loop original result cursor edits
       = Inl (ValueError ''Edits overlap or are out of order.'')"
  by (induction edits arbitrary: result cursor) auto

lemma in_order_iff:
  "in_order cursor edits \<longleftrightarrow>
     (\<forall>k<length edits. (if k = 0 then cursor else end' (edits ! (k - 1))) \<le> start (edits ! k))"
proof (induction edits arbitrary: cursor)
  case Nil
  then show ?case by simp
next
  case (Cons e edits)
  show ?case
  proof
    assume a: "in_order cursor (e # edits)"
    show "\<forall>k<length (e # edits). (if k = 0 then cursor else end' ((e # edits) ! (k - 1))) \<le> start ((e # edits) ! k)"
    proof (intro allI impI)
      fix k assume k: "k < length (e # edits)"
      show "(if k = 0 then cursor else end' ((e # edits) ! (k - 1))) \<le> start ((e # edits) ! k)"
      proof (cases k)
        case 0
        then show ?thesis using a by simp
      next
        case (Suc j)
        have "in_order (end' e) edits" using a by simp
        then have "(if j = 0 then end' e else end' (edits ! (j - 1))) \<le> start (edits ! j)"
          using Cons.IH[of "end' e"] k Suc by simp
        then show ?thesis using Suc by (cases j) auto
      qed
    qed
  next
    assume a: "\<forall>k<length (e # edits). (if k = 0 then cursor else end' ((e # edits) ! (k - 1))) \<le> start ((e # edits) ! k)"
    have 0: "cursor \<le> start e" using a by auto
    have "\<forall>j<length edits. (if j = 0 then end' e else end' (edits ! (j - 1))) \<le> start (edits ! j)"
    proof (intro allI impI)
      fix j assume j: "j < length edits"
      from a j have "(if Suc j = 0 then cursor else end' ((e # edits) ! (Suc j - 1))) \<le> start ((e # edits) ! Suc j)"
        by (metis Suc_less_eq length_Cons)
      then show "(if j = 0 then end' e else end' (edits ! (j - 1))) \<le> start (edits ! j)"
        by (cases j) auto
    qed
    then have "in_order (end' e) edits" using Cons.IH[of "end' e"] by simp
    with 0 show "in_order cursor (e # edits)" by simp
  qed
qed

lemma in_order_cursor_at:
  "in_order 0 edits \<longleftrightarrow> (\<forall>k<length edits. cursor_at edits k \<le> start (edits ! k))"
  unfolding in_order_iff cursor_at_def by simp


text \<open>An edit whose end is cut down to the length of the original.\<close>

definition clamp_end :: "nat \<Rightarrow> 'a edit \<Rightarrow> 'a edit" where
  "clamp_end n e = e\<lparr>end' := min (end' e) (int n)\<rparr>"

lemma slice_index_le: "slice_index n i \<le> n"
  by (auto simp: slice_index_def max_def)

lemma slice_index_mono: "0 \<le> a \<Longrightarrow> a \<le> b \<Longrightarrow> slice_index n a \<le> slice_index n b"
  by (simp add: slice_index_def nat_le_eq_zle min.coboundedI1)

lemma slice_index_clamp: "slice_index n (min i (int n)) = slice_index n i"
  by (auto simp: slice_index_def min_def)

lemma take_drop_split:
  "A \<le> B \<Longrightarrow> B \<le> C \<Longrightarrow>
     take (C - A) (drop A s) = take (B - A) (drop A s) @ take (C - B) (drop B s)"
proof -
  assume ab: "A \<le> B" and bc: "B \<le> C"
  have "C - A = (B - A) + (C - B)" using ab bc by simp
  then have "take (C - A) (drop A s) = take (B - A) (drop A s) @ take (C - B) (drop (B - A) (drop A s))"
    by (simp only: take_add)
  then show ?thesis using ab by simp
qed

lemma slice_split:
  "0 \<le> a \<Longrightarrow> a \<le> b \<Longrightarrow> b \<le> c \<Longrightarrow> slice s a c = slice s a b @ slice s b c"
  unfolding slice_def
  by (rule take_drop_split) (simp_all add: slice_index_mono)

lemma slice_from_split:
  "0 \<le> b \<Longrightarrow> b \<le> c \<Longrightarrow> slice_from s b = slice s b c @ slice_from s c"
proof -
  assume b: "0 \<le> b" and bc: "b \<le> c"
  have le: "slice_index (length s) b \<le> slice_index (length s) c"
    using b bc by (rule slice_index_mono)
  have "drop (slice_index (length s) b) s
      = take (slice_index (length s) c - slice_index (length s) b) (drop (slice_index (length s) b) s)
        @ drop (slice_index (length s) c - slice_index (length s) b) (drop (slice_index (length s) b) s)"
    by (simp only: append_take_drop_id)
  then show ?thesis
    unfolding slice_def slice_from_def using le by simp
qed

lemma slice_clamp_lo: "slice s (min lo (int (length s))) hi = slice s lo hi"
  by (simp add: slice_def slice_index_clamp)

lemma slice_from_clamp: "slice_from s (min lo (int (length s))) = slice_from s lo"
  by (simp add: slice_from_def slice_index_clamp)

lemma in_order_clamp:
  "in_order cursor edits \<Longrightarrow> c' \<le> cursor \<Longrightarrow> in_order c' (map (clamp_end n) edits)"
  by (induction edits arbitrary: cursor c') (auto simp: clamp_end_def)

lemma replay_text_clamp:
  "replay_text original (min cursor (int (length original))) (map (clamp_end (length original)) edits)
     = replay_text original cursor edits"
  by (induction edits arbitrary: cursor)
     (simp_all add: slice_from_clamp slice_clamp_lo clamp_end_def)

lemma replay_text_split:
  "\<exists>P. replay_text original cursor (es1 @ e # es2)
        = P @ slice original (if es1 = [] then cursor else end' (last es1)) (start e)
            @ replacement e @ replay_text original (end' e) es2"
proof (induction es1 arbitrary: cursor)
  case Nil
  show ?case by (rule exI[of _ "[]"]) simp
next
  case (Cons a es1)
  obtain P where P: "replay_text original (end' a) (es1 @ e # es2)
        = P @ slice original (if es1 = [] then end' a else end' (last es1)) (start e)
            @ replacement e @ replay_text original (end' e) es2"
    using Cons.IH[of "end' a"] by blast
  show ?case
    by (rule exI[of _ "slice original cursor (start a) @ replacement a @ P"])
       (simp add: P)
qed

lemma replay_text_head:
  assumes "0 \<le> b" "b \<le> c" "es = [] \<or> c \<le> start (hd es)"
  shows "\<exists>w. replay_text original b es = slice original b c @ w"
proof (cases es)
  case Nil
  then show ?thesis using slice_from_split[OF assms(1,2), of original] by simp
next
  case (Cons e2 es')
  then have "c \<le> start e2" using assms(3) by simp
  then show ?thesis
    using slice_split[OF assms(1,2), of "start e2" original] Cons by simp
qed

lemma replay_text_duplicates:
  assumes k: "k < length edits"
    and c0: "0 \<le> cursor_at edits k"
    and c1: "cursor_at edits k \<le> end' (edits ! k)"
    and c2: "end' (edits ! k) < start (edits ! k)"
    and nx: "Suc k < length edits \<longrightarrow> start (edits ! k) \<le> start (edits ! Suc k)"
  shows "\<exists>u w. replay_text original 0 edits
           = u @ slice original (end' (edits ! k)) (start (edits ! k)) @ replacement (edits ! k)
               @ slice original (end' (edits ! k)) (start (edits ! k)) @ w"
proof -
  let ?e = "edits ! k"
  let ?es1 = "take k edits"
  let ?es2 = "drop (Suc k) edits"
  have ed: "edits = ?es1 @ ?e # ?es2"
    using k by (simp add: id_take_nth_drop)
  have cur: "(if ?es1 = [] then 0 else end' (last ?es1)) = cursor_at edits k"
    using k by (cases k) (auto simp: cursor_at_def last_conv_nth)
  obtain P where P: "replay_text original 0 (?es1 @ ?e # ?es2)
        = P @ slice original (cursor_at edits k) (start ?e)
            @ replacement ?e @ replay_text original (end' ?e) ?es2"
    using replay_text_split[of original 0 ?es1 ?e ?es2] unfolding cur by blast
  have s1: "slice original (cursor_at edits k) (start ?e)
      = slice original (cursor_at edits k) (end' ?e) @ slice original (end' ?e) (start ?e)"
    using slice_split[OF c0 c1, of "start ?e" original] c2 by simp
  have "?es2 = [] \<or> start ?e \<le> start (hd ?es2)"
    using nx k by (cases "Suc k < length edits") (auto simp: hd_drop_conv_nth)
  then obtain w where w: "replay_text original (end' ?e) ?es2
      = slice original (end' ?e) (start ?e) @ w"
    using replay_text_head[of "end' ?e" "start ?e" ?es2 original] c0 c1 c2 by auto
  have "replay_text original 0 edits
      = (P @ slice original (cursor_at edits k) (end' ?e)) @ slice original (end' ?e) (start ?e)
          @ replacement ?e @ slice original (end' ?e) (start ?e) @ w"
    using P ed s1 w by simp
  then show ?thesis by blast
qed

text \<open>
  C2: \<open>apply_edits\<close> fails with the overlap error exactly when some edit starts before the
  running cursor (the end of the previous edit); the edit list
  \<open>[{0,5,x}, {3,8,y}]\<close> is rejected. When every edit starts at or after the running cursor,
  the span before each edit is copied, the replacement is written in place of the edit's
  span, and the tail of the original after the last edit is appended.
\<close>

theorem apply_edits_overlap_rejection:
  "(apply_edits original edits = Inl (ValueError ''Edits overlap or are out of order.''))
      = (\<exists>k<length edits. start (edits ! k) < cursor_at edits k)
   \<and> ((\<forall>k<length edits. cursor_at edits k \<le> start (edits ! k)) \<longrightarrow>
        apply_edits original edits = Inr (replay_text original 0 edits))
   \<and> apply_edits original
        [\<lparr>start = 0, end' = 5, replacement = x\<rparr>, \<lparr>start = 3, end' = 8, replacement = y\<rparr>]
      = Inl (ValueError ''Edits overlap or are out of order.'')"
proof (intro conjI impI)
  show "(apply_edits original edits = Inl (ValueError ''Edits overlap or are out of order.''))
      = (\<exists>k<length edits. start (edits ! k) < cursor_at edits k)"
  proof (cases "in_order 0 edits")
    case True
    then have "\<not> (\<exists>k<length edits. start (edits ! k) < cursor_at edits k)"
      unfolding in_order_cursor_at by (auto simp: not_less)
    moreover have "apply_edits original edits \<noteq> Inl (ValueError ''Edits overlap or are out of order.'')"
      using apply_edits_loop_in_order[OF True, of original "[]"] by (simp add: apply_edits_def)
    ultimately show ?thesis by simp
  next
    case False
    then have "\<exists>k<length edits. start (edits ! k) < cursor_at edits k"
      unfolding in_order_cursor_at by (auto simp: not_le)
    moreover have "apply_edits original edits = Inl (ValueError ''Edits overlap or are out of order.'')"
      using apply_edits_loop_out_of_order[OF False, of original "[]"] by (simp add: apply_edits_def)
    ultimately show ?thesis by simp
  qed
next
  assume "\<forall>k<length edits. cursor_at edits k \<le> start (edits ! k)"
  then have "in_order 0 edits" by (simp add: in_order_cursor_at)
  then show "apply_edits original edits = Inr (replay_text original 0 edits)"
    using apply_edits_loop_in_order[of 0 edits original "[]"] by (simp add: apply_edits_def)
next
  show "apply_edits original
        [\<lparr>start = 0, end' = 5, replacement = x\<rparr>, \<lparr>start = 3, end' = 8, replacement = y\<rparr>]
      = Inl (ValueError ''Edits overlap or are out of order.'')"
    by (simp add: apply_edits_def)
qed

theorem apply_edits_overlap_rejection_witness:
  "apply_edits ''hello world''
      [\<lparr>start = 0, end' = 5, replacement = ''HELLO''\<rparr>,
       \<lparr>start = 6, end' = 11, replacement = ''there''\<rparr>] = Inr ''HELLO there''"
proof -
  let ?edits = "[\<lparr>start = 0, end' = 5, replacement = ''HELLO''\<rparr>,
       \<lparr>start = 6, end' = 11, replacement = ''there''\<rparr>]"
  have h: "\<forall>k<length ?edits. cursor_at ?edits k \<le> start (?edits ! k)"
    by (simp add: cursor_at_def All_less_Suc)
  have "apply_edits ''hello world'' ?edits = Inr (replay_text ''hello world'' 0 ?edits)"
    using apply_edits_overlap_rejection[of "''hello world''" ?edits] h by blast
  then show ?thesis
    by (simp add: slice_def slice_from_def slice_index_def)
qed

text \<open>
  C10 (as amended): \<open>apply_edits\<close> checks only that each edit starts at or after the running
  cursor. Every edit list that passes this check is replayed without an error, whatever the
  ends are: an end beyond the length of the original acts as the length itself, and an
  edit whose end lies before its start is accepted. For such an edit, when the running
  cursor is between 0 and its end and the next edit (if any) does not start before its
  start, the characters of the original in \<open>[end, start)\<close> are written twice, once before
  and once after the replacement.
\<close>

theorem apply_edits_unchecked_spans:
  "(\<forall>k<length edits. cursor_at edits k \<le> start (edits ! k)) \<longrightarrow>
     (\<exists>out. apply_edits original edits = Inr out
        \<and> apply_edits original (map (clamp_end (length original)) edits) = Inr out
        \<and> (\<forall>k<length edits.
              0 \<le> cursor_at edits k \<and> cursor_at edits k \<le> end' (edits ! k)
              \<and> end' (edits ! k) < start (edits ! k)
              \<and> (Suc k < length edits \<longrightarrow> start (edits ! k) \<le> start (edits ! Suc k))
              \<longrightarrow> (\<exists>u w. out = u @ slice original (end' (edits ! k)) (start (edits ! k))
                               @ replacement (edits ! k)
                               @ slice original (end' (edits ! k)) (start (edits ! k)) @ w)))"
proof
  assume "\<forall>k<length edits. cursor_at edits k \<le> start (edits ! k)"
  then have ord: "in_order 0 edits" by (simp add: in_order_cursor_at)
  have 1: "apply_edits original edits = Inr (replay_text original 0 edits)"
    using apply_edits_loop_in_order[OF ord, of original "[]"] by (simp add: apply_edits_def)
  have ord': "in_order 0 (map (clamp_end (length original)) edits)"
    using in_order_clamp[OF ord, of 0] by simp
  have "replay_text original 0 (map (clamp_end (length original)) edits)
      = replay_text original 0 edits"
    using replay_text_clamp[of original 0 edits] by simp
  then have 2: "apply_edits original (map (clamp_end (length original)) edits)
      = Inr (replay_text original 0 edits)"
    using apply_edits_loop_in_order[OF ord', of original "[]"] by (simp add: apply_edits_def)
  show "\<exists>out. apply_edits original edits = Inr out
        \<and> apply_edits original (map (clamp_end (length original)) edits) = Inr out
        \<and> (\<forall>k<length edits.
              0 \<le> cursor_at edits k \<and> cursor_at edits k \<le> end' (edits ! k)
              \<and> end' (edits ! k) < start (edits ! k)
              \<and> (Suc k < length edits \<longrightarrow> start (edits ! k) \<le> start (edits ! Suc k))
              \<longrightarrow> (\<exists>u w. out = u @ slice original (end' (edits ! k)) (start (edits ! k))
                               @ replacement (edits ! k)
                               @ slice original (end' (edits ! k)) (start (edits ! k)) @ w))"
    using 1 2 replay_text_duplicates[of _ edits original] by blast
qed

text \<open>
  The characters in \<open>[end, start)\<close> are not always written twice: here both starts pass the
  cursor check and the second edit has its end before its start, yet \<open>b\<close>, at offset 1 of
  \<open>[1, 3)\<close>, is written once.
\<close>

theorem apply_edits_unchecked_spans_counterexample:
  "apply_edits ''abcdef''
      [\<lparr>start = 0, end' = 2, replacement = ''A''\<rparr>, \<lparr>start = 3, end' = 1, replacement = ''X''\<rparr>]
     = Inr ''AcXbcdef''
   \<and> cursor_at
        [\<lparr>start = 0, end' = 2, replacement = ''A''\<rparr>, \<lparr>start = 3, end' = 1, replacement = ''X''\<rparr>] 0
       \<le> start ([\<lparr>start = 0, end' = 2, replacement = ''A''\<rparr>,
                 \<lparr>start = 3, end' = 1, replacement = ''X''\<rparr>] ! 0)
   \<and> cursor_at
        [\<lparr>start = 0, end' = 2, replacement = ''A''\<rparr>, \<lparr>start = 3, end' = 1, replacement = ''X''\<rparr>] 1
       \<le> start ([\<lparr>start = 0, end' = 2, replacement = ''A''\<rparr>,
                 \<lparr>start = 3, end' = 1, replacement = ''X''\<rparr>] ! 1)
   \<and> slice ''abcdef'' 1 3 = ''bc''
   \<and> count_list ''AcXbcdef'' CHR ''b'' = 1"
  by (simp add: apply_edits_def slice_def slice_from_def slice_index_def cursor_at_def)

theorem apply_edits_unchecked_spans_witness:
  "apply_edits ''abcdef''
      [\<lparr>start = 4, end' = 2, replacement = ''X''\<rparr>, \<lparr>start = 5, end' = 10, replacement = ''Y''\<rparr>]
     = Inr ''abcdXcdeY''
   \<and> apply_edits ''abcdef''
      [\<lparr>start = 4, end' = 2, replacement = ''X''\<rparr>, \<lparr>start = 5, end' = 6, replacement = ''Y''\<rparr>]
     = Inr ''abcdXcdeY''
   \<and> (\<exists>u w. ''abcdXcdeY'' = u @ ''cd'' @ ''X'' @ ''cd'' @ w)"
proof -
  let ?E = "[\<lparr>start = 4, end' = 2, replacement = ''X''\<rparr>,
             \<lparr>start = 5, end' = 10, replacement = ''Y''\<rparr>]"
  have h: "\<forall>k<length ?E. cursor_at ?E k \<le> start (?E ! k)"
    by (simp add: cursor_at_def All_less_Suc)
  from apply_edits_unchecked_spans[of ?E "''abcdef''"] h
  obtain out where o: "apply_edits ''abcdef'' ?E = Inr out"
    and c: "apply_edits ''abcdef'' (map (clamp_end (length ''abcdef'')) ?E) = Inr out"
    and d: "\<forall>k<length ?E.
              0 \<le> cursor_at ?E k \<and> cursor_at ?E k \<le> end' (?E ! k)
              \<and> end' (?E ! k) < start (?E ! k)
              \<and> (Suc k < length ?E \<longrightarrow> start (?E ! k) \<le> start (?E ! Suc k))
              \<longrightarrow> (\<exists>u w. out = u @ slice ''abcdef'' (end' (?E ! k)) (start (?E ! k))
                               @ replacement (?E ! k)
                               @ slice ''abcdef'' (end' (?E ! k)) (start (?E ! k)) @ w)"
    by blast
  have "apply_edits ''abcdef'' ?E = Inr ''abcdXcdeY''"
    by (simp add: apply_edits_def slice_def slice_from_def slice_index_def)
  with o have out: "out = ''abcdXcdeY''" by simp
  from d[rule_format, of 0]
  have "\<exists>u w. out = u @ slice ''abcdef'' 2 4 @ ''X'' @ slice ''abcdef'' 2 4 @ w"
    by (simp add: cursor_at_def)
  then have "\<exists>u w. ''abcdXcdeY'' = u @ ''cd'' @ ''X'' @ ''cd'' @ w"
    unfolding out by (simp add: slice_def slice_index_def)
  then show ?thesis
    using o c unfolding out by (simp add: clamp_end_def)
qed

subsection \<open>\<^verbatim>\<open>difflib.SequenceMatcher\<close>\<close>

text \<open>
  \<^verbatim>\<open>build_edits\<close> calls \<^verbatim>\<open>SequenceMatcher(a=original, b=cleaned, autojunk=False).get_opcodes()\<close>
  of Python's standard library. The functions below follow CPython's \<^verbatim>\<open>difflib.py\<close> for
  this configuration: \<^verbatim>\<open>isjunk\<close> is \<^verbatim>\<open>None\<close> and \<^verbatim>\<open>autojunk\<close> is off, so no element of
  \<open>b\<close> is junk or popular, \<^verbatim>\<open>b2j\<close> lists for every element its indices in \<open>b\<close> in ascending
  order, and the two loops of \<^verbatim>\<open>find_longest_match\<close> that extend a match over junk never
  run. A block is \<^verbatim>\<open>Match(a, b, size)\<close>; a box is a pending \<^verbatim>\<open>(alo, ahi, blo, bhi)\<close>.
\<close>

type_synonym block = "nat \<times> nat \<times> nat"
type_synonym box = "nat \<times> nat \<times> nat \<times> nat"

definition b2j :: "'a list \<Rightarrow> 'a \<Rightarrow> nat list" where
  "b2j b elt = filter (\<lambda>j. b ! j = elt) [0..<length b]"

text \<open>
  \<^verbatim>\<open>
  besti, bestj, bestsize = alo, blo, 0
  j2len = {}
  for i in range(alo, ahi):
      newj2len = {}
      for j in b2j.get(a[i], nothing):
          if j < blo: continue
          if j >= bhi: break
          k = newj2len[j] = j2len.get(j-1, 0) + 1
          if k > bestsize:
              besti, bestj, bestsize = i-k+1, j-k+1, k
      j2len = newj2len
  while besti > alo and bestj > blo and a[besti-1] == b[bestj-1]:
      besti, bestj, bestsize = besti-1, bestj-1, bestsize+1
  while besti+bestsize < ahi and bestj+bestsize < bhi and
        a[besti+bestsize] == b[bestj+bestsize]:
      bestsize += 1
  \<close>
  The dictionary \<^verbatim>\<open>j2len\<close> has integer keys, so the lookup at \<open>j - 1\<close> with \<open>j = 0\<close> misses.
  \<open>flm_inner\<close> is the loop over \<open>j\<close>, \<open>flm_outer\<close> one round of the loop over \<open>i\<close>.
\<close>

fun flm_inner :: "(int \<rightharpoonup> nat) \<Rightarrow> nat \<Rightarrow> nat \<Rightarrow> nat \<Rightarrow> nat list
    \<Rightarrow> (int \<rightharpoonup> nat) \<times> block \<Rightarrow> (int \<rightharpoonup> nat) \<times> block" where
  "flm_inner j2len blo bhi i [] st = st"
| "flm_inner j2len blo bhi i (j # js) (newj2len, besti, bestj, bestsize) =
     (if j < blo then flm_inner j2len blo bhi i js (newj2len, besti, bestj, bestsize)
      else if j \<ge> bhi then (newj2len, besti, bestj, bestsize)
      else let k = (case j2len (int j - 1) of None \<Rightarrow> 0 | Some v \<Rightarrow> v) + 1
           in if k > bestsize
              then flm_inner j2len blo bhi i js (newj2len(int j \<mapsto> k), i + 1 - k, j + 1 - k, k)
              else flm_inner j2len blo bhi i js (newj2len(int j \<mapsto> k), besti, bestj, bestsize))"

definition flm_outer :: "'a list \<Rightarrow> 'a list \<Rightarrow> nat \<Rightarrow> nat
    \<Rightarrow> (int \<rightharpoonup> nat) \<times> block \<Rightarrow> nat \<Rightarrow> (int \<rightharpoonup> nat) \<times> block" where
  "flm_outer a b blo bhi st i = flm_inner (fst st) blo bhi i (b2j b (a ! i)) (Map.empty, snd st)"

function extend_left :: "'a list \<Rightarrow> 'a list \<Rightarrow> nat \<Rightarrow> nat \<Rightarrow> block \<Rightarrow> block" where
  "extend_left a b alo blo (besti, bestj, bestsize) =
     (if besti > alo \<and> bestj > blo \<and> a ! (besti - 1) = b ! (bestj - 1)
      then extend_left a b alo blo (besti - 1, bestj - 1, bestsize + 1)
      else (besti, bestj, bestsize))"
  by pat_completeness auto
termination
  by (relation "measure (\<lambda>(a, b, alo, blo, besti, bestj, bestsize). besti)") auto

function extend_right :: "'a list \<Rightarrow> 'a list \<Rightarrow> nat \<Rightarrow> nat \<Rightarrow> block \<Rightarrow> block" where
  "extend_right a b ahi bhi (besti, bestj, bestsize) =
     (if besti + bestsize < ahi \<and> bestj + bestsize < bhi
         \<and> a ! (besti + bestsize) = b ! (bestj + bestsize)
      then extend_right a b ahi bhi (besti, bestj, bestsize + 1)
      else (besti, bestj, bestsize))"
  by pat_completeness auto
termination
  by (relation "measure (\<lambda>(a, b, ahi, bhi, besti, bestj, bestsize). ahi - (besti + bestsize))") auto

declare extend_left.simps [simp del] extend_right.simps [simp del]

definition find_longest_match :: "'a list \<Rightarrow> 'a list \<Rightarrow> nat \<Rightarrow> nat \<Rightarrow> nat \<Rightarrow> nat \<Rightarrow> block" where
  "find_longest_match a b alo ahi blo bhi =
     extend_right a b ahi bhi
       (extend_left a b alo blo
          (snd (foldl (flm_outer a b blo bhi) (Map.empty, (alo, blo, 0)) [alo..<ahi])))"


text \<open>
  What \<^verbatim>\<open>find_longest_match\<close> guarantees: the block lies in the box and the two strings
  agree on it (or it is the empty block at the corner of the box).
\<close>

definition block_ok :: "'a list \<Rightarrow> 'a list \<Rightarrow> nat \<Rightarrow> nat \<Rightarrow> nat \<Rightarrow> nat \<Rightarrow> block \<Rightarrow> bool" where
  "block_ok a b alo ahi blo bhi blk =
     (case blk of (i, j, k) \<Rightarrow>
        (k = 0 \<and> i = alo \<and> j = blo)
        \<or> (alo \<le> i \<and> i + k \<le> ahi \<and> blo \<le> j \<and> j + k \<le> bhi \<and> (\<forall>t<k. a ! (i + t) = b ! (j + t))))"

definition row_ok :: "'a list \<Rightarrow> 'a list \<Rightarrow> nat \<Rightarrow> nat \<Rightarrow> nat \<Rightarrow> nat \<Rightarrow> (int \<rightharpoonup> nat) \<Rightarrow> bool" where
  "row_ok a b alo blo bhi i m =
     (\<forall>x v. m x = Some v \<longrightarrow>
        0 \<le> x \<and> blo \<le> nat x \<and> nat x < bhi \<and> 1 \<le> v \<and> v + alo \<le> i \<and> v + blo \<le> nat x + 1
        \<and> (\<forall>t<v. a ! (i - 1 - t) = b ! (nat x - t)))"

lemma block_okI:
  "alo \<le> i \<Longrightarrow> i + k \<le> ahi \<Longrightarrow> blo \<le> j \<Longrightarrow> j + k \<le> bhi
     \<Longrightarrow> (\<And>t. t < k \<Longrightarrow> a ! (i + t) = b ! (j + t))
     \<Longrightarrow> block_ok a b alo ahi blo bhi (i, j, k)"
  by (simp add: block_ok_def)

lemma block_okD:
  "block_ok a b alo ahi blo bhi (i, j, k) \<Longrightarrow> k \<noteq> 0 \<or> i \<noteq> alo \<or> j \<noteq> blo
     \<Longrightarrow> alo \<le> i \<and> i + k \<le> ahi \<and> blo \<le> j \<and> j + k \<le> bhi \<and> (\<forall>t<k. a ! (i + t) = b ! (j + t))"
  unfolding block_ok_def by blast

lemma row_okD:
  "row_ok a b alo blo bhi i m \<Longrightarrow> m x = Some v \<Longrightarrow>
     0 \<le> x \<and> blo \<le> nat x \<and> nat x < bhi \<and> 1 \<le> v \<and> v + alo \<le> i \<and> v + blo \<le> nat x + 1
        \<and> (\<forall>t<v. a ! (i - 1 - t) = b ! (nat x - t))"
  unfolding row_ok_def by blast

lemma row_ok_update:
  assumes "row_ok a b alo blo bhi i m"
    and "blo \<le> j" "j < bhi" "1 \<le> k" "k + alo \<le> i" "k + blo \<le> j + 1"
    and "\<forall>t<k. a ! (i - 1 - t) = b ! (j - t)"
  shows "row_ok a b alo blo bhi i (m(int j \<mapsto> k))"
  unfolding row_ok_def
proof (intro allI impI)
  fix x v assume xv: "(m(int j \<mapsto> k)) x = Some v"
  show "0 \<le> x \<and> blo \<le> nat x \<and> nat x < bhi \<and> 1 \<le> v \<and> v + alo \<le> i \<and> v + blo \<le> nat x + 1
        \<and> (\<forall>t<v. a ! (i - 1 - t) = b ! (nat x - t))"
  proof (cases "x = int j")
    case True
    then have "v = k" using xv by simp
    then show ?thesis using True assms(2-) by simp
  next
    case False
    then have "m x = Some v" using xv by simp
    then show ?thesis by (rule row_okD[OF assms(1)])
  qed
qed

lemma block_ok_mono: "block_ok a b alo ahi blo bhi blk \<Longrightarrow> ahi \<le> ahi' \<Longrightarrow> block_ok a b alo ahi' blo bhi blk"
  by (auto simp: block_ok_def)

lemma flm_inner_step:
  assumes old: "row_ok a b alo blo bhi i j2len"
    and j: "blo \<le> j" "j < bhi" "b ! j = a ! i"
    and k: "k = (case j2len (int j - 1) of None \<Rightarrow> 0 | Some v \<Rightarrow> v) + 1"
    and i: "alo \<le> i"
  shows "1 \<le> k \<and> k + alo \<le> Suc i \<and> k + blo \<le> j + 1 \<and> (\<forall>t<k. a ! (i - t) = b ! (j - t))"
proof (cases "j2len (int j - 1)")
  case None
  then show ?thesis using j k i by simp
next
  case (Some v)
  note d = row_okD[OF old Some]
  have x: "0 \<le> int j - 1" using d by blast
  have v: "1 \<le> v" "v + alo \<le> i" "v + blo \<le> nat (int j - 1) + 1" using d by blast+
  have m: "\<forall>t<v. a ! (i - 1 - t) = b ! (nat (int j - 1) - t)" using d by blast
  have j1: "nat (int j - 1) = j - 1" "1 \<le> j" using x by auto
  have kv: "k = v + 1" using k Some by simp
  have "a ! (i - t) = b ! (j - t)" if "t < k" for t
  proof (cases t)
    case 0
    then show ?thesis using j by simp
  next
    case (Suc t')
    then have "t' < v" using that kv by simp
    then have "a ! (i - 1 - t') = b ! (j - 1 - t')" using m j1 by simp
    then show ?thesis using Suc by simp
  qed
  moreover have "1 \<le> k" "k + alo \<le> Suc i" "k + blo \<le> j + 1"
    using kv v j1 by arith+
  ultimately show ?thesis by blast
qed

lemma flm_inner_ok:
  assumes old: "row_ok a b alo blo bhi i j2len" and i: "alo \<le> i"
  shows "\<forall>j\<in>set js. b ! j = a ! i \<Longrightarrow> row_ok a b alo blo bhi (Suc i) newj2len
      \<Longrightarrow> block_ok a b alo (Suc i) blo bhi best
      \<Longrightarrow> row_ok a b alo blo bhi (Suc i) (fst (flm_inner j2len blo bhi i js (newj2len, best)))
        \<and> block_ok a b alo (Suc i) blo bhi (snd (flm_inner j2len blo bhi i js (newj2len, best)))"
proof (induction js arbitrary: newj2len best)
  case Nil
  then show ?case by simp
next
  case (Cons j js)
  obtain besti bestj bestsize where best: "best = (besti, bestj, bestsize)"
    using prod_cases3 by blast
  have rest: "\<forall>j\<in>set js. b ! j = a ! i" using Cons.prems(1) by simp
  show ?case
  proof (cases "j < blo")
    case True
    have eq: "flm_inner j2len blo bhi i (j # js) (newj2len, best)
        = flm_inner j2len blo bhi i js (newj2len, best)"
      using True unfolding best by simp
    show ?thesis unfolding eq by (rule Cons.IH[OF rest Cons.prems(2,3)])
  next
    case lo: False
    show ?thesis
    proof (cases "bhi \<le> j")
      case True
      have eq: "flm_inner j2len blo bhi i (j # js) (newj2len, best) = (newj2len, best)"
        using True lo unfolding best by simp
      show ?thesis unfolding eq using Cons.prems(2,3) by simp
    next
      case hi: False
      define k where "k = (case j2len (int j - 1) of None \<Rightarrow> 0 | Some v \<Rightarrow> v) + 1"
      have bj: "b ! j = a ! i" using Cons.prems(1) by simp
      have jlo: "blo \<le> j" and jhi: "j < bhi" using lo hi by simp_all
      note st = flm_inner_step[OF old jlo jhi bj k_def i]
      have st1: "1 \<le> k" "k + alo \<le> Suc i" "k + blo \<le> j + 1" using st by blast+
      have st2: "\<forall>t<k. a ! (i - t) = b ! (j - t)" using st by blast
      have new: "row_ok a b alo blo bhi (Suc i) (newj2len(int j \<mapsto> k))"
        using row_ok_update[OF Cons.prems(2) jlo jhi st1] st2 by simp
      have blk: "block_ok a b alo (Suc i) blo bhi (i + 1 - k, j + 1 - k, k)"
      proof (rule block_okI)
        fix t assume that: "t < k"
        have "k - 1 - t < k" using that by simp
        then have m: "a ! (i - (k - 1 - t)) = b ! (j - (k - 1 - t))" using st2 by blast
        have e1: "i - (k - 1 - t) = i + 1 - k + t" using that st1 by arith
        have e2: "j - (k - 1 - t) = j + 1 - k + t" using that st1 by arith
        show "a ! (i + 1 - k + t) = b ! (j + 1 - k + t)" using m unfolding e1 e2 .
      qed (use st1 jhi in arith)+
      show ?thesis
      proof (cases "bestsize < k")
        case True
        have eq: "flm_inner j2len blo bhi i (j # js) (newj2len, best)
            = flm_inner j2len blo bhi i js (newj2len(int j \<mapsto> k), i + 1 - k, j + 1 - k, k)"
          using lo hi True unfolding best k_def by (simp add: Let_def)
        show ?thesis unfolding eq by (rule Cons.IH[OF rest new blk])
      next
        case False
        have eq: "flm_inner j2len blo bhi i (j # js) (newj2len, best)
            = flm_inner j2len blo bhi i js (newj2len(int j \<mapsto> k), best)"
          using lo hi False unfolding best k_def by (simp add: Let_def)
        show ?thesis unfolding eq by (rule Cons.IH[OF rest new Cons.prems(3)])
      qed
    qed
  qed
qed

lemma row_ok_empty: "row_ok a b alo blo bhi i Map.empty"
  by (simp add: row_ok_def)

lemma flm_outer_ok:
  assumes "row_ok a b alo blo bhi i (fst st)" "block_ok a b alo i blo bhi (snd st)" "alo \<le> i"
  shows "row_ok a b alo blo bhi (Suc i) (fst (flm_outer a b blo bhi st i))
       \<and> block_ok a b alo (Suc i) blo bhi (snd (flm_outer a b blo bhi st i))"
  unfolding flm_outer_def
proof (rule flm_inner_ok[OF assms(1,3)])
  show "\<forall>j\<in>set (b2j b (a ! i)). b ! j = a ! i" by (simp add: b2j_def)
  show "row_ok a b alo blo bhi (Suc i) Map.empty" by (rule row_ok_empty)
  show "block_ok a b alo (Suc i) blo bhi (snd st)" by (rule block_ok_mono[OF assms(2)]) simp
qed

lemma flm_loop_ok:
  "row_ok a b alo blo bhi (alo + n) (fst (foldl (flm_outer a b blo bhi) (Map.empty, (alo, blo, 0)) [alo..<alo + n]))
   \<and> block_ok a b alo (alo + n) blo bhi (snd (foldl (flm_outer a b blo bhi) (Map.empty, (alo, blo, 0)) [alo..<alo + n]))"
proof (induction n)
  case 0
  then show ?case by (simp add: row_ok_empty block_ok_def)
next
  case (Suc n)
  then show ?case using flm_outer_ok[of a b alo blo bhi "alo + n"] by simp
qed

lemma extend_left_ok:
  "block_ok a b alo ahi blo bhi blk \<Longrightarrow> block_ok a b alo ahi blo bhi (extend_left a b alo blo blk)"
proof (induction a b alo blo blk rule: extend_left.induct)
  case (1 a b alo blo besti bestj bestsize)
  show ?case
  proof (cases "besti > alo \<and> bestj > blo \<and> a ! (besti - 1) = b ! (bestj - 1)")
    case True
    have d: "alo \<le> besti \<and> besti + bestsize \<le> ahi \<and> blo \<le> bestj \<and> bestj + bestsize \<le> bhi
        \<and> (\<forall>t<bestsize. a ! (besti + t) = b ! (bestj + t))"
      using block_okD[OF 1(2)] True by simp
    have "block_ok a b alo ahi blo bhi (besti - 1, bestj - 1, bestsize + 1)"
    proof (rule block_okI)
      fix t assume that: "t < bestsize + 1"
      show "a ! (besti - 1 + t) = b ! (bestj - 1 + t)"
      proof (cases t)
        case 0
        then show ?thesis using True by simp
      next
        case (Suc t')
        then have "t' < bestsize" using that by simp
        then have "a ! (besti + t') = b ! (bestj + t')" using d by blast
        then show ?thesis using Suc True by simp
      qed
    qed (use d True in arith)+
    moreover have "extend_left a b alo blo (besti, bestj, bestsize)
        = extend_left a b alo blo (besti - 1, bestj - 1, bestsize + 1)"
      by (subst extend_left.simps) (use True in simp)
    ultimately show ?thesis using 1(1)[OF True] by simp
  next
    case False
    have "extend_left a b alo blo (besti, bestj, bestsize) = (besti, bestj, bestsize)"
      by (subst extend_left.simps) (use False in auto)
    then show ?thesis using 1(2) by simp
  qed
qed

lemma extend_right_ok:
  "block_ok a b alo ahi blo bhi blk \<Longrightarrow> block_ok a b alo ahi blo bhi (extend_right a b ahi bhi blk)"
proof (induction a b ahi bhi blk rule: extend_right.induct)
  case (1 a b ahi bhi besti bestj bestsize)
  show ?case
  proof (cases "besti + bestsize < ahi \<and> bestj + bestsize < bhi
         \<and> a ! (besti + bestsize) = b ! (bestj + bestsize)")
    case True
    have c: "(bestsize = 0 \<and> besti = alo \<and> bestj = blo)
        \<or> (alo \<le> besti \<and> besti + bestsize \<le> ahi \<and> blo \<le> bestj \<and> bestj + bestsize \<le> bhi
          \<and> (\<forall>t<bestsize. a ! (besti + t) = b ! (bestj + t)))"
      using 1(2) by (simp add: block_ok_def)
    have "block_ok a b alo ahi blo bhi (besti, bestj, bestsize + 1)"
    proof (rule block_okI)
      fix t assume that: "t < bestsize + 1"
      show "a ! (besti + t) = b ! (bestj + t)"
      proof (cases "t = bestsize")
        case True
        then show ?thesis using \<open>besti + bestsize < ahi \<and> bestj + bestsize < bhi
         \<and> a ! (besti + bestsize) = b ! (bestj + bestsize)\<close> by simp
      next
        case False
        then have "t < bestsize" using that by simp
        then show ?thesis using c by auto
      qed
    qed (use c True in arith)+
    moreover have "extend_right a b ahi bhi (besti, bestj, bestsize)
        = extend_right a b ahi bhi (besti, bestj, bestsize + 1)"
      by (subst extend_right.simps) (use True in simp)
    ultimately show ?thesis using 1(1)[OF True] by simp
  next
    case False
    have "extend_right a b ahi bhi (besti, bestj, bestsize) = (besti, bestj, bestsize)"
      by (subst extend_right.simps) (use False in auto)
    then show ?thesis using 1(2) by simp
  qed
qed

lemma find_longest_match_ok:
  "block_ok a b alo ahi blo bhi (find_longest_match a b alo ahi blo bhi)"
proof (cases "alo \<le> ahi")
  case True
  then obtain n where n: "ahi = alo + n" using le_Suc_ex by blast
  show ?thesis
    unfolding find_longest_match_def n
    using flm_loop_ok[of a b alo blo bhi n]
    by (intro extend_right_ok extend_left_ok) simp
next
  case False
  then have e: "[alo..<ahi] = []" by simp
  show ?thesis
    unfolding find_longest_match_def e
    by (intro extend_right_ok extend_left_ok) (simp add: block_ok_def)
qed


lemma find_longest_match_bounds:
  assumes "find_longest_match a b alo ahi blo bhi = (i, j, k)" "k \<noteq> 0"
  shows "alo \<le> i" "i + k \<le> ahi" "blo \<le> j" "j + k \<le> bhi" "\<forall>t<k. a ! (i + t) = b ! (j + t)"
proof -
  have "block_ok a b alo ahi blo bhi (i, j, k)"
    using find_longest_match_ok[of a b alo ahi blo bhi] assms(1) by simp
  from block_okD[OF this] assms(2)
  show "alo \<le> i" "i + k \<le> ahi" "blo \<le> j" "j + k \<le> bhi" "\<forall>t<k. a ! (i + t) = b ! (j + t)"
    by blast+
qed

text \<open>
  \<^verbatim>\<open>
  queue = [(0, la, 0, lb)]
  matching_blocks = []
  while queue:
      alo, ahi, blo, bhi = queue.pop()
      i, j, k = x = self.find_longest_match(alo, ahi, blo, bhi)
      if k:
          matching_blocks.append(x)
          if alo < i and blo < j: queue.append((alo, i, blo, j))
          if i+k < ahi and j+k < bhi: queue.append((i+k, ahi, j+k, bhi))
  matching_blocks.sort()
  \<close>
  The queue is a stack: its top is the head of the list. The loop ends because the boxes
  it pushes are smaller than the box it popped.
\<close>

definition box_weight :: "box \<Rightarrow> nat" where
  "box_weight bx = (case bx of (alo, ahi, blo, bhi) \<Rightarrow> 2 * (ahi - alo) + 1)"

function mb_loop :: "'a list \<Rightarrow> 'a list \<Rightarrow> box list \<Rightarrow> block list \<Rightarrow> block list" where
  "mb_loop a b [] matching_blocks = matching_blocks"
| "mb_loop a b ((alo, ahi, blo, bhi) # queue) matching_blocks =
     (case find_longest_match a b alo ahi blo bhi of (i, j, k) \<Rightarrow>
        if k \<noteq> 0 then
          mb_loop a b
            ((if i + k < ahi \<and> j + k < bhi then [(i + k, ahi, j + k, bhi)] else [])
              @ (if alo < i \<and> blo < j then [(alo, i, blo, j)] else []) @ queue)
            (matching_blocks @ [(i, j, k)])
        else mb_loop a b queue matching_blocks)"
  by pat_completeness auto
termination
proof (relation "measure (\<lambda>(a, b, queue, matching_blocks). sum_list (map box_weight queue))")
  show "wf (measure (\<lambda>(a, b, queue, matching_blocks). sum_list (map box_weight queue)))"
    by simp
next
  fix a b :: "'a list" and alo ahi blo bhi queue and matching_blocks :: "block list" and x y xa ya
  assume f: "(x, y) = find_longest_match a b alo ahi blo bhi" "(xa, ya) = y" and k: "ya \<noteq> 0"
  have flm: "find_longest_match a b alo ahi blo bhi = (x, xa, ya)" using f by simp
  note bd = find_longest_match_bounds[OF flm k]
  show "((a, b, (if x + ya < ahi \<and> xa + ya < bhi then [(x + ya, ahi, xa + ya, bhi)] else [])
              @ (if alo < x \<and> blo < xa then [(alo, x, blo, xa)] else []) @ queue,
          matching_blocks @ [(x, xa, ya)]),
         (a, b, (alo, ahi, blo, bhi) # queue, matching_blocks))
        \<in> measure (\<lambda>(a, b, queue, matching_blocks). sum_list (map box_weight queue))"
    using bd(1,2) k by (auto simp: box_weight_def)
next
  fix a b :: "'a list" and alo ahi blo bhi queue and matching_blocks :: "block list" and x y xa ya
  assume "(x, y) = find_longest_match a b alo ahi blo bhi" "(xa, ya) = y" "\<not> ya \<noteq> 0"
  show "((a, b, queue, matching_blocks), (a, b, (alo, ahi, blo, bhi) # queue, matching_blocks))
        \<in> measure (\<lambda>(a, b, queue, matching_blocks). sum_list (map box_weight queue))"
    by (simp add: box_weight_def)
qed

declare mb_loop.simps [simp del]

text \<open>
  The recursive form of the search, which the loop with its queue replaces in CPython;
  the sorted result of the loop is the result of the recursion (\<open>sort_mb_loop\<close>).
\<close>

function rec_blocks :: "'a list \<Rightarrow> 'a list \<Rightarrow> box \<Rightarrow> block list" where
  "rec_blocks a b (alo, ahi, blo, bhi) =
     (case find_longest_match a b alo ahi blo bhi of (i, j, k) \<Rightarrow>
        if k \<noteq> 0 then
          (if alo < i \<and> blo < j then rec_blocks a b (alo, i, blo, j) else [])
          @ [(i, j, k)]
          @ (if i + k < ahi \<and> j + k < bhi then rec_blocks a b (i + k, ahi, j + k, bhi) else [])
        else [])"
  by pat_completeness auto
termination
proof (relation "measure (\<lambda>(a, b, bx). box_weight bx)")
  show "wf (measure (\<lambda>(a, b, bx). box_weight bx))" by simp
next
  fix a b :: "'a list" and alo ahi blo bhi x y xa ya
  assume f: "(x, y) = find_longest_match a b alo ahi blo bhi" "(xa, ya) = y" and k: "ya \<noteq> 0"
    and c: "alo < x \<and> blo < xa"
  have flm: "find_longest_match a b alo ahi blo bhi = (x, xa, ya)" using f by simp
  note bd = find_longest_match_bounds[OF flm k]
  show "((a, b, alo, x, blo, xa), (a, b, alo, ahi, blo, bhi)) \<in> measure (\<lambda>(a, b, bx). box_weight bx)"
    using bd(1,2) k c by (auto simp: box_weight_def)
next
  fix a b :: "'a list" and alo ahi blo bhi x y xa ya
  assume f: "(x, y) = find_longest_match a b alo ahi blo bhi" "(xa, ya) = y" and k: "ya \<noteq> 0"
    and c: "x + ya < ahi \<and> xa + ya < bhi"
  have flm: "find_longest_match a b alo ahi blo bhi = (x, xa, ya)" using f by simp
  note bd = find_longest_match_bounds[OF flm k]
  show "((a, b, x + ya, ahi, xa + ya, bhi), (a, b, alo, ahi, blo, bhi)) \<in> measure (\<lambda>(a, b, bx). box_weight bx)"
    using bd(1,2) k c by (auto simp: box_weight_def)
qed

declare rec_blocks.simps [simp del]

text \<open>
  \<^verbatim>\<open>
  i1 = j1 = k1 = 0
  non_adjacent = []
  for i2, j2, k2 in matching_blocks:
      if i1 + k1 == i2 and j1 + k1 == j2:
          k1 += k2
      else:
          if k1: non_adjacent.append((i1, j1, k1))
          i1, j1, k1 = i2, j2, k2
  if k1: non_adjacent.append((i1, j1, k1))
  non_adjacent.append((la, lb, 0))
  \<close>
\<close>

fun collapse_loop :: "block \<Rightarrow> block list \<Rightarrow> block list \<Rightarrow> block list" where
  "collapse_loop (i1, j1, k1) non_adjacent [] =
     (if k1 \<noteq> 0 then non_adjacent @ [(i1, j1, k1)] else non_adjacent)"
| "collapse_loop (i1, j1, k1) non_adjacent ((i2, j2, k2) # rest) =
     (if i1 + k1 = i2 \<and> j1 + k1 = j2
      then collapse_loop (i1, j1, k1 + k2) non_adjacent rest
      else collapse_loop (i2, j2, k2)
             (if k1 \<noteq> 0 then non_adjacent @ [(i1, j1, k1)] else non_adjacent) rest)"

definition get_matching_blocks :: "'a list \<Rightarrow> 'a list \<Rightarrow> block list" where
  "get_matching_blocks a b =
     (let la = length a; lb = length b;
          matching_blocks = sort (mb_loop a b [(0, la, 0, lb)] [])
      in collapse_loop (0, 0, 0) [] matching_blocks @ [(la, lb, 0)])"

text \<open>
  \<^verbatim>\<open>
  i = j = 0
  answer = []
  for ai, bj, size in self.get_matching_blocks():
      tag = ''
      if i < ai and j < bj: tag = 'replace'
      elif i < ai: tag = 'delete'
      elif j < bj: tag = 'insert'
      if tag: answer.append((tag, i, ai, j, bj))
      i, j = ai+size, bj+size
      if size: answer.append(('equal', ai, i, bj, j))
  \<close>
\<close>

datatype tag = Replace | Delete | Insert | Equal

type_synonym opcode = "tag \<times> nat \<times> nat \<times> nat \<times> nat"

fun opcodes_loop :: "nat \<Rightarrow> nat \<Rightarrow> opcode list \<Rightarrow> block list \<Rightarrow> opcode list" where
  "opcodes_loop i j answer [] = answer"
| "opcodes_loop i j answer ((ai, bj, size') # rest) =
     (let answer1 =
            (if i < ai \<and> j < bj then answer @ [(Replace, i, ai, j, bj)]
             else if i < ai then answer @ [(Delete, i, ai, j, bj)]
             else if j < bj then answer @ [(Insert, i, ai, j, bj)]
             else answer);
          answer2 =
            (if size' \<noteq> 0 then answer1 @ [(Equal, ai, ai + size', bj, bj + size')] else answer1)
      in opcodes_loop (ai + size') (bj + size') answer2 rest)"

definition get_opcodes :: "'a list \<Rightarrow> 'a list \<Rightarrow> opcode list" where
  "get_opcodes a b = opcodes_loop 0 0 [] (get_matching_blocks a b)"

subsection \<open>\<^verbatim>\<open>build_edits\<close>\<close>

text \<open>
  \<^verbatim>\<open>
  def build_edits(original, cleaned):
      matcher = SequenceMatcher(a=original, b=cleaned, autojunk=False)
      edits = []
      for tag, i1, i2, j1, j2 in matcher.get_opcodes():
          if tag == "equal":
              continue
          edits.append({"start": i1, "end": i2, "replacement": cleaned[j1:j2]})
      return edits
  \<close>
\<close>

fun build_edits_loop :: "'a list \<Rightarrow> 'a edit list \<Rightarrow> opcode list \<Rightarrow> 'a edit list" where
  "build_edits_loop cleaned edits [] = edits"
| "build_edits_loop cleaned edits ((tag, i1, i2, j1, j2) # opcodes) =
     (if tag = Equal then build_edits_loop cleaned edits opcodes
      else build_edits_loop cleaned
             (edits @ [\<lparr>start = int i1, end' = int i2,
                        replacement = slice cleaned (int j1) (int j2)\<rparr>]) opcodes)"

definition build_edits :: "'a list \<Rightarrow> 'a list \<Rightarrow> 'a edit list" where
  "build_edits original cleaned = build_edits_loop cleaned [] (get_opcodes original cleaned)"

text \<open>
  A list of blocks is a chain from \<open>(i, j)\<close> when the blocks follow each other in both
  strings, lie inside them, and the strings agree on every block.
\<close>

fun blocks_chain :: "'a list \<Rightarrow> 'a list \<Rightarrow> nat \<Rightarrow> nat \<Rightarrow> block list \<Rightarrow> bool" where
  "blocks_chain a b i j [] = True"
| "blocks_chain a b i j ((ai, bj, k) # rest) =
     (i \<le> ai \<and> j \<le> bj \<and> ai + k \<le> length a \<and> bj + k \<le> length b
      \<and> take k (drop ai a) = take k (drop bj b)
      \<and> blocks_chain a b (ai + k) (bj + k) rest)"

fun chain_end :: "nat \<times> nat \<Rightarrow> block list \<Rightarrow> nat \<times> nat" where
  "chain_end p [] = p"
| "chain_end p ((ai, bj, k) # rest) = chain_end (ai + k, bj + k) rest"

lemma chain_end_append: "chain_end p (xs @ ys) = chain_end (chain_end p xs) ys"
  by (induction xs arbitrary: p) auto

lemma blocks_chain_append:
  "blocks_chain a b i j (xs @ ys) =
     (blocks_chain a b i j xs
      \<and> blocks_chain a b (fst (chain_end (i, j) xs)) (snd (chain_end (i, j) xs)) ys)"
  by (induction xs arbitrary: i j) auto

lemma blocks_chain_mono:
  "blocks_chain a b i j xs \<Longrightarrow> i' \<le> i \<Longrightarrow> j' \<le> j \<Longrightarrow> blocks_chain a b i' j' xs"
  by (cases xs) auto

lemma chain_end_le:
  "blocks_chain a b i j xs \<Longrightarrow> i \<le> ahi \<Longrightarrow> j \<le> bhi
     \<Longrightarrow> \<forall>(i', j', k')\<in>set xs. i' + k' \<le> ahi \<and> j' + k' \<le> bhi
     \<Longrightarrow> fst (chain_end (i, j) xs) \<le> ahi \<and> snd (chain_end (i, j) xs) \<le> bhi"
  by (induction xs arbitrary: i j) auto

lemma chain_end_ge:
  "blocks_chain a b i j xs \<Longrightarrow> i \<le> fst (chain_end (i, j) xs) \<and> j \<le> snd (chain_end (i, j) xs)"
proof (induction xs arbitrary: i j)
  case Nil
  then show ?case by simp
next
  case (Cons x xs)
  obtain ai bj k where x: "x = (ai, bj, k)" using prod_cases3 by blast
  have "ai + k \<le> fst (chain_end (ai + k, bj + k) xs) \<and> bj + k \<le> snd (chain_end (ai + k, bj + k) xs)"
    using Cons.IH[of "ai + k" "bj + k"] Cons.prems x by simp
  then show ?case using Cons.prems x by simp
qed

lemma match_take_drop:
  assumes "\<forall>t<k. a ! (i + t) = b ! (j + t)" "i + k \<le> length a" "j + k \<le> length b"
  shows "take k (drop i a) = take k (drop j b)"
  by (rule nth_equalityI) (use assms in auto)

definition inside :: "box \<Rightarrow> block list \<Rightarrow> bool" where
  "inside bx xs = (case bx of (alo, ahi, blo, bhi) \<Rightarrow>
     \<forall>(i, j, k)\<in>set xs. 0 < k \<and> alo \<le> i \<and> i + k \<le> ahi \<and> blo \<le> j \<and> j + k \<le> bhi)"

lemma inside_Nil [simp]: "inside bx []"
  by (simp add: inside_def split: prod.splits)

lemma rec_blocks_ok:
  "alo \<le> ahi \<Longrightarrow> ahi \<le> length a \<Longrightarrow> blo \<le> bhi \<Longrightarrow> bhi \<le> length b \<Longrightarrow>
     blocks_chain a b alo blo (rec_blocks a b (alo, ahi, blo, bhi))
     \<and> inside (alo, ahi, blo, bhi) (rec_blocks a b (alo, ahi, blo, bhi))
     \<and> sorted (rec_blocks a b (alo, ahi, blo, bhi))"
proof (induction a b "(alo, ahi, blo, bhi)" arbitrary: alo ahi blo bhi rule: rec_blocks.induct)
  case (1 a b alo ahi blo bhi)
  obtain i j k where flm: "find_longest_match a b alo ahi blo bhi = (i, j, k)"
    using prod_cases3 by blast
  show ?case
  proof (cases "k = 0")
    case True
    then have "rec_blocks a b (alo, ahi, blo, bhi) = []"
      using flm by (subst rec_blocks.simps) simp
    then show ?thesis by simp
  next
    case k: False
    note bd = find_longest_match_bounds[OF flm k]
    define L where "L = (if alo < i \<and> blo < j then rec_blocks a b (alo, i, blo, j) else [])"
    define R where "R = (if i + k < ahi \<and> j + k < bhi then rec_blocks a b (i + k, ahi, j + k, bhi) else [])"
    have eq: "rec_blocks a b (alo, ahi, blo, bhi) = L @ [(i, j, k)] @ R"
      unfolding L_def R_def using flm k by (subst rec_blocks.simps) simp
    have Lok: "blocks_chain a b alo blo L \<and> inside (alo, i, blo, j) L \<and> sorted L"
    proof (cases "alo < i \<and> blo < j")
      case True
      have "blocks_chain a b alo blo (rec_blocks a b (alo, i, blo, j))
          \<and> inside (alo, i, blo, j) (rec_blocks a b (alo, i, blo, j))
          \<and> sorted (rec_blocks a b (alo, i, blo, j))"
        using 1(1)[OF flm[symmetric] refl k True] True bd 1(4,6) by simp
      then show ?thesis using True by (simp add: L_def)
    next
      case False
      then show ?thesis by (auto simp: L_def)
    qed
    have Rok: "blocks_chain a b (i + k) (j + k) R \<and> inside (i + k, ahi, j + k, bhi) R \<and> sorted R"
    proof (cases "i + k < ahi \<and> j + k < bhi")
      case True
      have "blocks_chain a b (i + k) (j + k) (rec_blocks a b (i + k, ahi, j + k, bhi))
          \<and> inside (i + k, ahi, j + k, bhi) (rec_blocks a b (i + k, ahi, j + k, bhi))
          \<and> sorted (rec_blocks a b (i + k, ahi, j + k, bhi))"
        using 1(2)[OF flm[symmetric] refl k True] True 1(4,6) by simp
      then show ?thesis using True by (simp add: R_def)
    next
      case False
      then show ?thesis by (auto simp: R_def)
    qed
    have m: "take k (drop i a) = take k (drop j b)"
      using match_take_drop[OF bd(5)] bd(2,4) 1(4,6) by simp
    have Lend: "fst (chain_end (alo, blo) L) \<le> i \<and> snd (chain_end (alo, blo) L) \<le> j"
    proof -
      have "\<forall>(i', j', k')\<in>set L. i' + k' \<le> i \<and> j' + k' \<le> j"
        using Lok unfolding inside_def by fastforce
      then show ?thesis
        using chain_end_le[of a b alo blo L i j] Lok bd(1,3) by blast
    qed
    have chain: "blocks_chain a b alo blo (L @ [(i, j, k)] @ R)"
      using Lok Rok Lend m bd 1(4,6) by (simp add: blocks_chain_append)
    have ins: "inside (alo, ahi, blo, bhi) (L @ [(i, j, k)] @ R)"
      using Lok Rok bd k unfolding inside_def by fastforce
    have srt: "sorted (L @ [(i, j, k)] @ R)"
      using Lok Rok k unfolding inside_def by (fastforce simp: sorted_append)
    show ?thesis unfolding eq using chain ins srt by simp
  qed
qed

lemma mb_loop_mset:
  "mset (mb_loop a b queue mbs)
     = mset mbs + sum_list (map (\<lambda>bx. mset (rec_blocks a b bx)) queue)"
proof (induction a b queue mbs rule: mb_loop.induct)
  case (1 a b matching_blocks)
  then show ?case by (simp add: mb_loop.simps)
next
  case (2 a b alo ahi blo bhi queue matching_blocks)
  obtain i j k where flm: "find_longest_match a b alo ahi blo bhi = (i, j, k)"
    using prod_cases3 by blast
  show ?case
  proof (cases "k = 0")
    case True
    have "rec_blocks a b (alo, ahi, blo, bhi) = []"
      using flm True by (subst rec_blocks.simps) simp
    moreover have "mb_loop a b ((alo, ahi, blo, bhi) # queue) matching_blocks
        = mb_loop a b queue matching_blocks"
      using flm True by (subst mb_loop.simps) simp
    ultimately show ?thesis using 2(2)[OF flm[symmetric] refl] True by simp
  next
    case k: False
    have r: "rec_blocks a b (alo, ahi, blo, bhi)
        = (if alo < i \<and> blo < j then rec_blocks a b (alo, i, blo, j) else [])
          @ [(i, j, k)]
          @ (if i + k < ahi \<and> j + k < bhi then rec_blocks a b (i + k, ahi, j + k, bhi) else [])"
      using flm k by (subst rec_blocks.simps) simp
    have l: "mb_loop a b ((alo, ahi, blo, bhi) # queue) matching_blocks
        = mb_loop a b
            ((if i + k < ahi \<and> j + k < bhi then [(i + k, ahi, j + k, bhi)] else [])
              @ (if alo < i \<and> blo < j then [(alo, i, blo, j)] else []) @ queue)
            (matching_blocks @ [(i, j, k)])"
      using flm k by (subst mb_loop.simps) simp
    show ?thesis
      unfolding l using 2(1)[OF flm[symmetric] refl k] by (auto simp: r)
  qed
qed

lemma sort_mb_loop:
  "sort (mb_loop a b [(0, length a, 0, length b)] []) = rec_blocks a b (0, length a, 0, length b)"
proof (rule properties_for_sort)
  show "mset (rec_blocks a b (0, length a, 0, length b))
      = mset (mb_loop a b [(0, length a, 0, length b)] [])"
    by (simp add: mb_loop_mset)
  show "sorted (rec_blocks a b (0, length a, 0, length b))"
    using rec_blocks_ok[of 0 "length a" a 0 "length b" b] by simp
qed

lemma blocks_chain_merge:
  assumes "blocks_chain a b i j ((i1, j1, k1) # (i1 + k1, j1 + k1, k2) # rest)"
  shows "blocks_chain a b i j ((i1, j1, k1 + k2) # rest)"
proof -
  have 1: "take k1 (drop i1 a) = take k1 (drop j1 b)"
    and 2: "take k2 (drop (i1 + k1) a) = take k2 (drop (j1 + k1) b)"
    using assms by simp_all
  have "take (k1 + k2) (drop i1 a) = take k1 (drop i1 a) @ take k2 (drop (i1 + k1) a)"
    by (simp add: take_add add.commute)
  moreover have "take (k1 + k2) (drop j1 b) = take k1 (drop j1 b) @ take k2 (drop (j1 + k1) b)"
    by (simp add: take_add add.commute)
  ultimately have "take (k1 + k2) (drop i1 a) = take (k1 + k2) (drop j1 b)"
    using 1 2 by simp
  then show ?thesis using assms by (simp add: add.assoc)
qed

lemma blocks_chain_skip:
  assumes "blocks_chain a b i j ((i1, j1, 0) # rest)"
  shows "blocks_chain a b i j rest"
  using assms blocks_chain_mono[of a b i1 j1 rest i j] by simp

lemma collapse_loop_chain:
  "blocks_chain a b i j (non_adjacent @ (i1, j1, k1) # rest)
     \<Longrightarrow> blocks_chain a b i j (collapse_loop (i1, j1, k1) non_adjacent rest)"
proof (induction rest arbitrary: i1 j1 k1 non_adjacent)
  case Nil
  then show ?case by (simp add: blocks_chain_append)
next
  case (Cons x rest)
  obtain i2 j2 k2 where x: "x = (i2, j2, k2)" using prod_cases3 by blast
  let ?p = "chain_end (i, j) non_adjacent"
  have pre: "blocks_chain a b i j non_adjacent"
    and tl: "blocks_chain a b (fst ?p) (snd ?p) ((i1, j1, k1) # (i2, j2, k2) # rest)"
    using Cons.prems x by (simp_all add: blocks_chain_append)
  show ?case
  proof (cases "i1 + k1 = i2 \<and> j1 + k1 = j2")
    case True
    have "blocks_chain a b (fst ?p) (snd ?p) ((i1, j1, k1 + k2) # rest)"
      using blocks_chain_merge[of a b "fst ?p" "snd ?p" i1 j1 k1 k2 rest] tl True by simp
    then have "blocks_chain a b i j (non_adjacent @ (i1, j1, k1 + k2) # rest)"
      using pre by (simp add: blocks_chain_append)
    then show ?thesis using Cons.IH True x by simp
  next
    case False
    show ?thesis
    proof (cases "k1 = 0")
      case True
      have "blocks_chain a b (fst ?p) (snd ?p) ((i2, j2, k2) # rest)"
        using blocks_chain_skip[of a b "fst ?p" "snd ?p" i1 j1] tl True by simp
      then have "blocks_chain a b i j (non_adjacent @ (i2, j2, k2) # rest)"
        using pre by (simp add: blocks_chain_append)
      then show ?thesis using Cons.IH[of non_adjacent i2 j2 k2] False True x by auto
    next
      case k1: False
      have "blocks_chain a b i j ((non_adjacent @ [(i1, j1, k1)]) @ (i2, j2, k2) # rest)"
        using Cons.prems x by simp
      then show ?thesis
        using Cons.IH[of "non_adjacent @ [(i1, j1, k1)]" i2 j2 k2] False k1 x by auto
    qed
  qed
qed

lemma chain_end_bound:
  "blocks_chain a b i j xs \<Longrightarrow> i \<le> length a \<Longrightarrow> j \<le> length b
     \<Longrightarrow> fst (chain_end (i, j) xs) \<le> length a \<and> snd (chain_end (i, j) xs) \<le> length b"
  by (induction xs arbitrary: i j) auto

lemma get_matching_blocks_chain:
  "\<exists>bs. get_matching_blocks a b = bs @ [(length a, length b, 0)]
        \<and> blocks_chain a b 0 0 (bs @ [(length a, length b, 0)])"
proof -
  let ?bs = "collapse_loop (0, 0, 0) [] (rec_blocks a b (0, length a, 0, length b))"
  have eq: "get_matching_blocks a b = ?bs @ [(length a, length b, 0)]"
    by (simp add: get_matching_blocks_def sort_mb_loop Let_def)
  have "blocks_chain a b 0 0 (rec_blocks a b (0, length a, 0, length b))"
    using rec_blocks_ok[of 0 "length a" a 0 "length b" b] by simp
  then have "blocks_chain a b 0 0 ([] @ (0, 0, 0) # rec_blocks a b (0, length a, 0, length b))"
    by simp
  then have c: "blocks_chain a b 0 0 ?bs" by (rule collapse_loop_chain)
  have "fst (chain_end (0, 0) ?bs) \<le> length a \<and> snd (chain_end (0, 0) ?bs) \<le> length b"
    using chain_end_bound[OF c] by simp
  then have "blocks_chain a b 0 0 (?bs @ [(length a, length b, 0)])"
    using c by (simp add: blocks_chain_append)
  with eq show ?thesis by blast
qed

text \<open>The loops of \<open>get_opcodes\<close> and \<open>build_edits\<close> without their accumulators.\<close>

definition edit_of :: "'a list \<Rightarrow> opcode \<Rightarrow> 'a edit" where
  "edit_of cleaned opc = (case opc of (tag, i1, i2, j1, j2) \<Rightarrow>
     \<lparr>start = int i1, end' = int i2, replacement = slice cleaned (int j1) (int j2)\<rparr>)"

definition non_equal :: "opcode \<Rightarrow> bool" where
  "non_equal opc = (fst opc \<noteq> Equal)"

lemma build_edits_loop_map:
  "build_edits_loop cleaned edits opcodes = edits @ map (edit_of cleaned) (filter non_equal opcodes)"
  by (induction cleaned edits opcodes rule: build_edits_loop.induct)
     (auto simp: edit_of_def non_equal_def)

lemma opcodes_loop_acc:
  "opcodes_loop i j answer bs = answer @ opcodes_loop i j [] bs"
proof (induction bs arbitrary: i j answer)
  case Nil
  then show ?case by simp
next
  case (Cons x bs)
  obtain ai bj k where x: "x = (ai, bj, k)" using prod_cases3 by blast
  show ?case
    unfolding x opcodes_loop.simps Let_def
    by (subst Cons.IH) (subst (2) Cons.IH, simp)
qed

definition edits_from :: "'a list \<Rightarrow> nat \<Rightarrow> nat \<Rightarrow> block list \<Rightarrow> 'a edit list" where
  "edits_from cleaned i j bs = map (edit_of cleaned) (filter non_equal (opcodes_loop i j [] bs))"

lemma edits_from_Nil [simp]: "edits_from cleaned i j [] = []"
  by (simp add: edits_from_def)

lemma edits_from_Cons:
  "edits_from cleaned i j ((ai, bj, k) # bs) =
     (if i < ai \<or> j < bj
      then [\<lparr>start = int i, end' = int ai, replacement = slice cleaned (int j) (int bj)\<rparr>]
      else [])
     @ edits_from cleaned (ai + k) (bj + k) bs"
  unfolding edits_from_def opcodes_loop.simps Let_def
  by (subst opcodes_loop_acc) (auto simp: edit_of_def non_equal_def)

lemma build_edits_edits_from:
  "build_edits original cleaned = edits_from cleaned 0 0 (get_matching_blocks original cleaned)"
  by (simp add: build_edits_def get_opcodes_def build_edits_loop_map edits_from_def)

lemma slice_nat:
  "x \<le> y \<Longrightarrow> y \<le> length s \<Longrightarrow> slice s (int x) (int y) = take (y - x) (drop x s)"
  by (simp add: slice_def slice_index_def)

lemma slice_from_nat: "slice_from s (int x) = drop x s"
  by (cases "x \<le> length s") (simp_all add: slice_from_def slice_index_def)

lemma in_order_mono: "in_order c es \<Longrightarrow> c' \<le> c \<Longrightarrow> in_order c' es"
  by (cases es) auto

lemma replay_text_shift:
  assumes "in_order c' es" "0 \<le> c" "c \<le> c'"
  shows "replay_text s c es = slice s c c' @ replay_text s c' es"
proof (cases es)
  case Nil
  then show ?thesis using slice_from_split[OF assms(2,3), of s] by simp
next
  case (Cons e es')
  then have "c' \<le> start e" using assms(1) by simp
  then show ?thesis using slice_split[OF assms(2,3), of "start e" s] Cons by simp
qed

lemma edits_from_replay:
  "blocks_chain a b i j (bs @ [(length a, length b, 0)]) \<Longrightarrow>
     in_order (int i) (edits_from b i j (bs @ [(length a, length b, 0)]))
     \<and> replay_text a (int i) (edits_from b i j (bs @ [(length a, length b, 0)])) = drop j b
     \<and> (\<forall>e\<in>set (edits_from b i j (bs @ [(length a, length b, 0)])).
           int i \<le> start e \<and> start e \<le> end' e \<and> end' e \<le> int (length a))"
proof (induction bs arbitrary: i j)
  case Nil
  then have ij: "i \<le> length a" "j \<le> length b" by simp_all
  show ?case
  proof (cases "i < length a \<or> j < length b")
    case True
    then show ?thesis
      using ij by (simp add: edits_from_Cons slice_nat slice_from_nat)
  next
    case False
    then have "i = length a" "j = length b" using ij by simp_all
    then show ?thesis by (simp add: edits_from_Cons slice_from_nat)
  qed
next
  case (Cons x bs)
  obtain ai bj k where x: "x = (ai, bj, k)" using prod_cases3 by blast
  let ?rest = "bs @ [(length a, length b, 0)]"
  let ?es = "edits_from b (ai + k) (bj + k) ?rest"
  from Cons.prems x have le: "i \<le> ai" "j \<le> bj" "ai + k \<le> length a" "bj + k \<le> length b"
    and m: "take k (drop ai a) = take k (drop bj b)"
    and ch: "blocks_chain a b (ai + k) (bj + k) ?rest"
    by simp_all
  note ih = Cons.IH[OF ch]
  have ord: "in_order (int (ai + k)) ?es" using ih by blast
  have rep: "replay_text a (int (ai + k)) ?es = drop (bj + k) b" using ih by blast
  have bnd: "\<forall>e\<in>set ?es. int (ai + k) \<le> start e \<and> start e \<le> end' e \<and> end' e \<le> int (length a)"
    using ih by blast
  have "replay_text a (int ai) ?es = slice a (int ai) (int (ai + k)) @ replay_text a (int (ai + k)) ?es"
    by (rule replay_text_shift[OF ord]) simp_all
  also have "\<dots> = take k (drop ai a) @ drop (bj + k) b"
    using slice_nat[of ai "ai + k" a] le by (simp only: rep) simp
  also have "\<dots> = drop bj b"
    unfolding m by (metis append_take_drop_id drop_drop add.commute)
  finally have rep': "replay_text a (int ai) ?es = drop bj b" .
  have ord': "in_order (int ai) ?es" by (rule in_order_mono[OF ord]) simp
  have eq: "edits_from b i j (x # bs @ [(length a, length b, 0)]) =
     (if i < ai \<or> j < bj
      then [\<lparr>start = int i, end' = int ai, replacement = slice b (int j) (int bj)\<rparr>]
      else []) @ ?es"
    by (simp add: x edits_from_Cons)
  show ?case
  proof (cases "i < ai \<or> j < bj")
    case True
    have "take (bj - j) (drop j b) @ drop bj b = drop j b"
      using le by (metis add_diff_cancel_left' append_take_drop_id drop_drop le_Suc_ex add.commute)
    then have "replay_text a (int i) (edits_from b i j ((x # bs) @ [(length a, length b, 0)])) = drop j b"
      using True le by (simp add: eq rep' slice_nat)
    moreover have "in_order (int i) (edits_from b i j ((x # bs) @ [(length a, length b, 0)]))"
      using True ord' by (simp add: eq)
    moreover have "\<forall>e\<in>set (edits_from b i j ((x # bs) @ [(length a, length b, 0)])).
           int i \<le> start e \<and> start e \<le> end' e \<and> end' e \<le> int (length a)"
      using True le bnd by (auto simp: eq)
    ultimately show ?thesis by blast
  next
    case False
    then have ij: "i = ai" "j = bj" using le by simp_all
    have eq': "edits_from b i j ((x # bs) @ [(length a, length b, 0)]) = ?es"
      using False by (simp add: eq)
    have "\<forall>e\<in>set ?es. int i \<le> start e \<and> start e \<le> end' e \<and> end' e \<le> int (length a)"
      using bnd ij by auto
    then show ?thesis unfolding eq' using ord' rep' ij by simp
  qed
qed

lemma build_edits_replay:
  "in_order 0 (build_edits original cleaned)
   \<and> replay_text original 0 (build_edits original cleaned) = cleaned
   \<and> (\<forall>e\<in>set (build_edits original cleaned).
         0 \<le> start e \<and> start e \<le> end' e \<and> end' e \<le> int (length original))"
proof -
  obtain bs where bs: "get_matching_blocks original cleaned = bs @ [(length original, length cleaned, 0)]"
    and ch: "blocks_chain original cleaned 0 0 (bs @ [(length original, length cleaned, 0)])"
    using get_matching_blocks_chain by blast
  show ?thesis
    using edits_from_replay[OF ch] by (simp add: build_edits_edits_from bs)
qed

text \<open>
  C5: the edits of \<open>build_edits\<close> are in ascending, non-overlapping order: every edit has
  \<open>0 \<le> start \<le> end \<le> len(original)\<close> and starts at or after the end of the edit before
  it. There is exactly one edit for every opcode of the alignment that is not \<open>equal\<close>, in
  the order of the opcodes and without merging, and its replacement is the slice of
  \<open>cleaned\<close> the opcode names.
\<close>

theorem build_edits_invariant:
  "(\<forall>e\<in>set (build_edits original cleaned).
       0 \<le> start e \<and> start e \<le> end' e \<and> end' e \<le> int (length original))
   \<and> (\<forall>k. Suc k < length (build_edits original cleaned) \<longrightarrow>
         end' (build_edits original cleaned ! k) \<le> start (build_edits original cleaned ! Suc k))
   \<and> build_edits original cleaned
       = map (edit_of cleaned) (filter non_equal (get_opcodes original cleaned))"
proof (intro conjI allI impI)
  show "\<forall>e\<in>set (build_edits original cleaned).
       0 \<le> start e \<and> start e \<le> end' e \<and> end' e \<le> int (length original)"
    using build_edits_replay by blast
next
  fix k assume k: "Suc k < length (build_edits original cleaned)"
  have "in_order 0 (build_edits original cleaned)" using build_edits_replay by blast
  then have "(if Suc k = 0 then 0 else end' (build_edits original cleaned ! (Suc k - 1)))
      \<le> start (build_edits original cleaned ! Suc k)"
    unfolding in_order_iff using k by blast
  then show "end' (build_edits original cleaned ! k) \<le> start (build_edits original cleaned ! Suc k)"
    by simp
next
  show "build_edits original cleaned
       = map (edit_of cleaned) (filter non_equal (get_opcodes original cleaned))"
    by (simp add: build_edits_def build_edits_loop_map)
qed

theorem build_edits_invariant_witness:
  "build_edits ''qabxcd'' ''abycdf'' =
     [\<lparr>start = 0, end' = 1, replacement = []\<rparr>,
      \<lparr>start = 3, end' = 4, replacement = ''y''\<rparr>,
      \<lparr>start = 6, end' = 6, replacement = ''f''\<rparr>]
   \<and> list_all (\<lambda>e. 0 \<le> start e \<and> start e \<le> end' e \<and> end' e \<le> 6)
        (build_edits ''qabxcd'' ''abycdf'')
   \<and> end' (build_edits ''qabxcd'' ''abycdf'' ! 0) \<le> start (build_edits ''qabxcd'' ''abycdf'' ! 1)
   \<and> end' (build_edits ''qabxcd'' ''abycdf'' ! 1) \<le> start (build_edits ''qabxcd'' ''abycdf'' ! 2)"
proof -
  have ops: "get_opcodes ''qabxcd'' ''abycdf'' =
      [(Delete, 0, 1, 0, 0), (Equal, 1, 3, 0, 2), (Replace, 3, 4, 2, 3),
       (Equal, 4, 6, 3, 5), (Insert, 6, 6, 5, 6)]"
    by code_simp
  note inv = build_edits_invariant[of "''qabxcd''" "''abycdf''"]
  have "build_edits ''qabxcd'' ''abycdf''
      = map (edit_of ''abycdf'') (filter non_equal (get_opcodes ''qabxcd'' ''abycdf''))"
    using inv by blast
  then have ev: "build_edits ''qabxcd'' ''abycdf'' =
     [\<lparr>start = 0, end' = 1, replacement = []\<rparr>,
      \<lparr>start = 3, end' = 4, replacement = ''y''\<rparr>,
      \<lparr>start = 6, end' = 6, replacement = ''f''\<rparr>]"
    by (simp add: ops edit_of_def non_equal_def slice_def slice_index_def)
  have len: "length (build_edits ''qabxcd'' ''abycdf'') = 3" by (simp add: ev)
  have b: "\<forall>e\<in>set (build_edits ''qabxcd'' ''abycdf'').
      0 \<le> start e \<and> start e \<le> end' e \<and> end' e \<le> int (length ''qabxcd'')"
    using inv by blast
  have o: "\<forall>k. Suc k < length (build_edits ''qabxcd'' ''abycdf'') \<longrightarrow>
      end' (build_edits ''qabxcd'' ''abycdf'' ! k) \<le> start (build_edits ''qabxcd'' ''abycdf'' ! Suc k)"
    using inv by blast
  have o0: "end' (build_edits ''qabxcd'' ''abycdf'' ! 0) \<le> start (build_edits ''qabxcd'' ''abycdf'' ! 1)"
    using o[rule_format, of 0] len by simp
  have o1: "end' (build_edits ''qabxcd'' ''abycdf'' ! 1) \<le> start (build_edits ''qabxcd'' ''abycdf'' ! 2)"
    using o[rule_format, of 1] len by (simp add: numeral_2_eq_2)
  have "list_all (\<lambda>e. 0 \<le> start e \<and> start e \<le> end' e \<and> end' e \<le> 6)
        (build_edits ''qabxcd'' ''abycdf'')"
    using b by (simp add: list_all_iff)
  then show ?thesis using ev o0 o1 by blast
qed

lemma apply_build_edits: "apply_edits original (build_edits original cleaned) = Inr cleaned"
proof -
  have "in_order 0 (build_edits original cleaned)"
    and "replay_text original 0 (build_edits original cleaned) = cleaned"
    using build_edits_replay by blast+
  then show ?thesis
    using apply_edits_loop_in_order[of 0 "build_edits original cleaned" original "[]"]
    by (simp add: apply_edits_def)
qed

subsection \<open>Python's \<^verbatim>\<open>str\<close> methods\<close>

text \<open>
  The methods of \<^verbatim>\<open>str\<close> and the module \<^verbatim>\<open>unicodedata\<close> read the Unicode character
  database, which is not part of the repository. On ASCII the model is exact: there the
  case predicates and mappings are those of the ASCII letters, a string of ASCII
  characters is its own NFKC form, and the general categories are those of \<open>ascii_category\<close>.
  Beyond ASCII the database is a parameter \<open>U\<close>: the fields of \<open>unicode_db\<close> give, for
  code points from 128 on, the case predicates and the general category, and for strings
  with such a code point the results of \<^verbatim>\<open>upper\<close>, \<^verbatim>\<open>lower\<close>, \<^verbatim>\<open>capitalize\<close> and of
  \<^verbatim>\<open>unicodedata.normalize("NFKC", s)\<close>.
\<close>

record unicode_db =
  db_normalize_NFKC :: "str \<Rightarrow> str"
  db_category :: "codepoint \<Rightarrow> char \<times> char"
  db_isupper :: "codepoint \<Rightarrow> bool"
  db_islower :: "codepoint \<Rightarrow> bool"
  db_istitle :: "codepoint \<Rightarrow> bool"
  db_upper :: "str \<Rightarrow> str"
  db_lower :: "str \<Rightarrow> str"
  db_capitalize :: "str \<Rightarrow> str"

text \<open>A string literal as a Python string.\<close>

definition lit :: "string \<Rightarrow> str" where
  "lit s = map of_char s"

definition ascii_isupper :: "codepoint \<Rightarrow> bool" where
  "ascii_isupper c = (65 \<le> c \<and> c \<le> 90)"

definition ascii_islower :: "codepoint \<Rightarrow> bool" where
  "ascii_islower c = (97 \<le> c \<and> c \<le> 122)"

definition ascii_toupper :: "codepoint \<Rightarrow> codepoint" where
  "ascii_toupper c = (if ascii_islower c then c - 32 else c)"

definition ascii_tolower :: "codepoint \<Rightarrow> codepoint" where
  "ascii_tolower c = (if ascii_isupper c then c + 32 else c)"

definition is_ascii :: "str \<Rightarrow> bool" where
  "is_ascii s = list_all (\<lambda>c. c < 128) s"

definition cp_isupper :: "'u unicode_db_scheme \<Rightarrow> codepoint \<Rightarrow> bool" where
  "cp_isupper U c = (if c < 128 then ascii_isupper c else db_isupper U c)"

definition cp_islower :: "'u unicode_db_scheme \<Rightarrow> codepoint \<Rightarrow> bool" where
  "cp_islower U c = (if c < 128 then ascii_islower c else db_islower U c)"

definition cp_istitle :: "'u unicode_db_scheme \<Rightarrow> codepoint \<Rightarrow> bool" where
  "cp_istitle U c = (if c < 128 then False else db_istitle U c)"

text \<open>
  \<^verbatim>\<open>str.isupper\<close>, \<^verbatim>\<open>str.islower\<close> and \<^verbatim>\<open>str.istitle\<close> as CPython computes them: a string
  of one character is decided by that character; a longer one by a loop that fails on a
  character of the wrong case and remembers whether a cased character was seen (and, for
  \<^verbatim>\<open>istitle\<close>, whether the previous character was cased).
\<close>

fun isupper_loop :: "'u unicode_db_scheme \<Rightarrow> bool \<Rightarrow> str \<Rightarrow> bool" where
  "isupper_loop U cased [] = cased"
| "isupper_loop U cased (ch # s) =
     (if cp_islower U ch \<or> cp_istitle U ch then False
      else isupper_loop U (cased \<or> cp_isupper U ch) s)"

definition isupper :: "'u unicode_db_scheme \<Rightarrow> str \<Rightarrow> bool" where
  "isupper U s = (case s of [] \<Rightarrow> False | [ch] \<Rightarrow> cp_isupper U ch | _ \<Rightarrow> isupper_loop U False s)"

fun islower_loop :: "'u unicode_db_scheme \<Rightarrow> bool \<Rightarrow> str \<Rightarrow> bool" where
  "islower_loop U cased [] = cased"
| "islower_loop U cased (ch # s) =
     (if cp_isupper U ch \<or> cp_istitle U ch then False
      else islower_loop U (cased \<or> cp_islower U ch) s)"

definition islower :: "'u unicode_db_scheme \<Rightarrow> str \<Rightarrow> bool" where
  "islower U s = (case s of [] \<Rightarrow> False | [ch] \<Rightarrow> cp_islower U ch | _ \<Rightarrow> islower_loop U False s)"

fun istitle_loop :: "'u unicode_db_scheme \<Rightarrow> bool \<Rightarrow> bool \<Rightarrow> str \<Rightarrow> bool" where
  "istitle_loop U cased previous_is_cased [] = cased"
| "istitle_loop U cased previous_is_cased (ch # s) =
     (if cp_isupper U ch \<or> cp_istitle U ch
      then (if previous_is_cased then False else istitle_loop U True True s)
      else if cp_islower U ch
      then (if \<not> previous_is_cased then False else istitle_loop U True True s)
      else istitle_loop U cased False s)"

definition istitle :: "'u unicode_db_scheme \<Rightarrow> str \<Rightarrow> bool" where
  "istitle U s = (case s of [] \<Rightarrow> False | [ch] \<Rightarrow> cp_istitle U ch \<or> cp_isupper U ch
                  | _ \<Rightarrow> istitle_loop U False False s)"

definition upper :: "'u unicode_db_scheme \<Rightarrow> str \<Rightarrow> str" where
  "upper U s = (if is_ascii s then map ascii_toupper s else db_upper U s)"

definition lower :: "'u unicode_db_scheme \<Rightarrow> str \<Rightarrow> str" where
  "lower U s = (if is_ascii s then map ascii_tolower s else db_lower U s)"

definition capitalize :: "'u unicode_db_scheme \<Rightarrow> str \<Rightarrow> str" where
  "capitalize U s =
     (if is_ascii s
      then (case s of [] \<Rightarrow> [] | ch # rest \<Rightarrow> ascii_toupper ch # map ascii_tolower rest)
      else db_capitalize U s)"

subsection \<open>\<^verbatim>\<open>_match_case\<close>\<close>

text \<open>
  \<^verbatim>\<open>
  def _match_case(source, suggestion):
      if source.isupper():
          return suggestion.upper()
      if source.istitle():
          return suggestion.capitalize()
      return suggestion.lower() if source.islower() else suggestion
  \<close>
\<close>

definition match_case :: "'u unicode_db_scheme \<Rightarrow> str \<Rightarrow> str \<Rightarrow> str" where
  "match_case U source suggestion =
     (if isupper U source then upper U suggestion
      else if istitle U source then capitalize U suggestion
      else if islower U source then lower U suggestion
      else suggestion)"


text \<open>The pattern \<^verbatim>\<open>WORD_RE = [A-Za-z][A-Za-z']+\<close>: a token is a string the pattern matches in full.\<close>

definition is_word_start :: "codepoint \<Rightarrow> bool" where
  "is_word_start c = (ascii_isupper c \<or> ascii_islower c)"

definition is_word_char :: "codepoint \<Rightarrow> bool" where
  "is_word_char c = (is_word_start c \<or> c = 39)"

definition is_token :: "str \<Rightarrow> bool" where
  "is_token s = (case s of [] \<Rightarrow> False
                 | c # rest \<Rightarrow> is_word_start c \<and> rest \<noteq> [] \<and> list_all is_word_char rest)"

text \<open>
  Title case as \<^verbatim>\<open>istitle\<close> decides it on a token: a letter is uppercase exactly when it
  does not follow a letter (\<open>prev\<close> says whether a letter comes before the string). The
  reading "first letter upper, rest lower" is \<open>first_upper_rest_lower\<close>.
\<close>

definition title_pattern :: "bool \<Rightarrow> str \<Rightarrow> bool" where
  "title_pattern prev s =
     list_all (\<lambda>i. is_word_start (s ! i) \<longrightarrow>
                  (ascii_isupper (s ! i) \<longleftrightarrow> (if i = 0 then \<not> prev else \<not> is_word_start (s ! (i - 1)))))
       [0..<length s]"

definition first_upper_rest_lower :: "str \<Rightarrow> bool" where
  "first_upper_rest_lower s =
     (case s of [] \<Rightarrow> False | c # rest \<Rightarrow> ascii_isupper c \<and> list_all ascii_islower rest)"

lemma word_char_lt: "is_word_char c \<Longrightarrow> c < 128"
  by (auto simp: is_word_char_def is_word_start_def ascii_isupper_def ascii_islower_def)

lemma word_char_cp:
  assumes "is_word_char c"
  shows "cp_isupper U c = ascii_isupper c" "cp_islower U c = ascii_islower c" "cp_istitle U c = False"
  using word_char_lt[OF assms] by (simp_all add: cp_isupper_def cp_islower_def cp_istitle_def)

lemma upper_not_lower: "ascii_isupper c \<Longrightarrow> \<not> ascii_islower c"
  by (simp add: ascii_isupper_def ascii_islower_def)

lemma isupper_loop_word:
  "list_all is_word_char s \<Longrightarrow>
     isupper_loop U cased s = ((cased \<or> (\<exists>c\<in>set s. ascii_isupper c)) \<and> (\<forall>c\<in>set s. \<not> ascii_islower c))"
  by (induction s arbitrary: cased) (auto simp: word_char_cp dest: upper_not_lower)

lemma islower_loop_word:
  "list_all is_word_char s \<Longrightarrow>
     islower_loop U cased s = ((cased \<or> (\<exists>c\<in>set s. ascii_islower c)) \<and> (\<forall>c\<in>set s. \<not> ascii_isupper c))"
  by (induction s arbitrary: cased) (auto simp: word_char_cp dest: upper_not_lower)

lemma title_pattern_Nil [simp]: "title_pattern prev []"
  by (simp add: title_pattern_def)

lemma title_pattern_iff:
  "title_pattern prev s =
     (\<forall>i<length s. is_word_start (s ! i) \<longrightarrow>
        (ascii_isupper (s ! i) \<longleftrightarrow> (if i = 0 then \<not> prev else \<not> is_word_start (s ! (i - 1)))))"
  unfolding title_pattern_def list_all_iff by auto

lemma title_pattern_Cons:
  "title_pattern prev (c # s) =
     ((is_word_start c \<longrightarrow> (ascii_isupper c \<longleftrightarrow> \<not> prev)) \<and> title_pattern (is_word_start c) s)"
proof -
  have "(\<forall>i<length s. is_word_start (s ! i) \<longrightarrow>
          (ascii_isupper (s ! i) \<longleftrightarrow> \<not> is_word_start ((c # s) ! i)))
      = (\<forall>i<length s. is_word_start (s ! i) \<longrightarrow>
          (ascii_isupper (s ! i) \<longleftrightarrow> (if i = 0 then \<not> is_word_start c else \<not> is_word_start (s ! (i - 1)))))"
    by (rule all_cong1, rename_tac i, case_tac i) simp_all
  then show ?thesis
    unfolding title_pattern_iff by (simp add: All_less_Suc2)
qed

lemma istitle_loop_word:
  "list_all is_word_char s \<Longrightarrow>
     istitle_loop U cased prev s
       = ((cased \<or> (\<exists>c\<in>set s. is_word_start c)) \<and> title_pattern prev s)"
proof (induction s arbitrary: cased prev)
  case Nil
  then show ?case by simp
next
  case (Cons c s)
  then have c: "is_word_char c" and s: "list_all is_word_char s" by simp_all
  show ?case
    using Cons.IH[OF s] upper_not_lower[of c]
    by (auto simp: word_char_cp[OF c] title_pattern_Cons is_word_start_def)
qed

lemma token_cases:
  assumes "is_token s"
  obtains c d rest where "s = c # d # rest" "is_word_start c" "list_all is_word_char (c # d # rest)"
proof -
  from assms obtain c r where s: "s = c # r" and c: "is_word_start c" and r: "r \<noteq> []"
    and a: "list_all is_word_char r"
    by (auto simp: is_token_def split: list.splits)
  from r obtain d rest where "r = d # rest" by (cases r) auto
  then show ?thesis using that[of c d rest] s c a by (simp add: is_word_char_def)
qed

lemma isupper_token:
  assumes "is_token s"
  shows "isupper U s = (\<forall>c\<in>set s. \<not> ascii_islower c)"
proof -
  from assms obtain c d rest where s: "s = c # d # rest" and c: "is_word_start c"
    and a: "list_all is_word_char (c # d # rest)" by (rule token_cases)
  have "isupper U s = isupper_loop U False s" by (simp add: isupper_def s)
  also have "\<dots> = ((False \<or> (\<exists>x\<in>set s. ascii_isupper x)) \<and> (\<forall>x\<in>set s. \<not> ascii_islower x))"
    unfolding s by (rule isupper_loop_word[OF a])
  also have "\<dots> = (\<forall>x\<in>set s. \<not> ascii_islower x)"
    using c s by (auto simp: is_word_start_def)
  finally show ?thesis .
qed

lemma islower_token:
  assumes "is_token s"
  shows "islower U s = (\<forall>c\<in>set s. \<not> ascii_isupper c)"
proof -
  from assms obtain c d rest where s: "s = c # d # rest" and c: "is_word_start c"
    and a: "list_all is_word_char (c # d # rest)" by (rule token_cases)
  have "islower U s = islower_loop U False s" by (simp add: islower_def s)
  also have "\<dots> = ((False \<or> (\<exists>x\<in>set s. ascii_islower x)) \<and> (\<forall>x\<in>set s. \<not> ascii_isupper x))"
    unfolding s by (rule islower_loop_word[OF a])
  also have "\<dots> = (\<forall>x\<in>set s. \<not> ascii_isupper x)"
    using c s by (auto simp: is_word_start_def)
  finally show ?thesis .
qed

lemma istitle_token:
  assumes "is_token s"
  shows "istitle U s = title_pattern False s"
proof -
  from assms obtain c d rest where s: "s = c # d # rest" and c: "is_word_start c"
    and a: "list_all is_word_char (c # d # rest)" by (rule token_cases)
  have "istitle U s = istitle_loop U False False s" by (simp add: istitle_def s)
  also have "\<dots> = ((False \<or> (\<exists>x\<in>set s. is_word_start x)) \<and> title_pattern False s)"
    unfolding s by (rule istitle_loop_word[OF a])
  also have "\<dots> = title_pattern False s"
    using c s by auto
  finally show ?thesis .
qed

lemma title_pattern_lower_rest:
  "list_all ascii_islower s \<Longrightarrow> title_pattern True s"
  by (induction s) (auto simp: title_pattern_Cons is_word_start_def dest: upper_not_lower)

lemma first_upper_rest_lower_title:
  "first_upper_rest_lower s \<Longrightarrow> title_pattern False s \<and> (s \<noteq> [] \<and> tl s \<noteq> [] \<longrightarrow> (\<exists>c\<in>set s. ascii_islower c))"
  by (cases s) (auto simp: first_upper_rest_lower_def title_pattern_Cons is_word_start_def
      title_pattern_lower_rest neq_Nil_conv)


text \<open>
  A small Unicode database, to run the model on concrete strings: it holds the code points
  U+00C9, U+00E9 (the letter e with acute, upper and lower case) and U+0301 (the combining
  acute accent) beside ASCII; every other code point is unassigned in it.
\<close>

definition excerpt_decompose :: "codepoint \<Rightarrow> str" where
  "excerpt_decompose c = (if c = 0xE9 then [0x65, 0x301] else if c = 0xC9 then [0x45, 0x301] else [c])"

fun excerpt_compose :: "str \<Rightarrow> str" where
  "excerpt_compose (c # m # s) =
     (if m = 0x301 \<and> c = 0x65 then 0xE9 # excerpt_compose s
      else if m = 0x301 \<and> c = 0x45 then 0xC9 # excerpt_compose s
      else c # excerpt_compose (m # s))"
| "excerpt_compose s = s"

definition excerpt_toupper :: "codepoint \<Rightarrow> codepoint" where
  "excerpt_toupper c = (if c = 0xE9 then 0xC9 else ascii_toupper c)"

definition excerpt_tolower :: "codepoint \<Rightarrow> codepoint" where
  "excerpt_tolower c = (if c = 0xC9 then 0xE9 else ascii_tolower c)"

definition excerpt_db :: unicode_db where
  "excerpt_db = \<lparr>
     db_normalize_NFKC = (\<lambda>s. excerpt_compose (concat (map excerpt_decompose s))),
     db_category = (\<lambda>c. if c = 0xC9 then (CHR ''L'', CHR ''u'')
                         else if c = 0xE9 then (CHR ''L'', CHR ''l'')
                         else if c = 0x301 then (CHR ''M'', CHR ''n'')
                         else (CHR ''C'', CHR ''n'')),
     db_isupper = (\<lambda>c. c = 0xC9),
     db_islower = (\<lambda>c. c = 0xE9),
     db_istitle = (\<lambda>c. False),
     db_upper = map excerpt_toupper,
     db_lower = map excerpt_tolower,
     db_capitalize = (\<lambda>s. case s of [] \<Rightarrow> [] | ch # rest \<Rightarrow> excerpt_toupper ch # map excerpt_tolower rest)
   \<rparr>"

text \<open>
  C7 (as amended): for a source token (a match of \<^verbatim>\<open>[A-Za-z][A-Za-z']+\<close>) and any
  suggestion, the cased candidate is the suggestion uppercased when the token has no
  lowercase letter; otherwise the suggestion capitalized (first character upper, rest
  lower) when the token is title-case as \<^verbatim>\<open>istitle\<close> decides it, that is when each of
  its letters is uppercase exactly if it does not follow a letter, which holds for every
  token whose first letter is upper and whose other characters are lowercase letters;
  otherwise the suggestion lowercased when the token has no uppercase letter; otherwise
  the suggestion unchanged. \<open>TEH\<close>, \<open>Teh\<close> and \<open>teh\<close> with the suggestion \<open>the\<close> give
  \<open>THE\<close>, \<open>The\<close> and \<open>the\<close>.
\<close>

theorem match_case_transfer:
  assumes "is_token source"
  shows "match_case U source suggestion =
           (if \<forall>c\<in>set source. \<not> ascii_islower c then upper U suggestion
            else if title_pattern False source then capitalize U suggestion
            else if \<forall>c\<in>set source. \<not> ascii_isupper c then lower U suggestion
            else suggestion)
         \<and> (first_upper_rest_lower source \<longrightarrow>
               match_case U source suggestion = capitalize U suggestion)
         \<and> match_case U (lit ''TEH'') (lit ''the'') = lit ''THE''
         \<and> match_case U (lit ''Teh'') (lit ''the'') = lit ''The''
         \<and> match_case U (lit ''teh'') (lit ''the'') = lit ''the''"
proof -
  have main: "match_case U source suggestion =
           (if \<forall>c\<in>set source. \<not> ascii_islower c then upper U suggestion
            else if title_pattern False source then capitalize U suggestion
            else if \<forall>c\<in>set source. \<not> ascii_isupper c then lower U suggestion
            else suggestion)"
    unfolding match_case_def isupper_token[OF assms] istitle_token[OF assms] islower_token[OF assms]
    by (rule refl)
  have "match_case U source suggestion = capitalize U suggestion" if f: "first_upper_rest_lower source"
  proof -
    from assms obtain c d rest where s: "source = c # d # rest" by (rule token_cases)
    have "title_pattern False source" "\<exists>c\<in>set source. ascii_islower c"
      using first_upper_rest_lower_title[OF f] s by simp_all
    then show ?thesis unfolding main by auto
  qed
  moreover have "match_case U (lit ''TEH'') (lit ''the'') = lit ''THE''"
    "match_case U (lit ''Teh'') (lit ''the'') = lit ''The''"
    "match_case U (lit ''teh'') (lit ''the'') = lit ''the''"
    by (simp_all add: match_case_def isupper_def istitle_def islower_def lit_def
        cp_isupper_def cp_islower_def cp_istitle_def ascii_isupper_def ascii_islower_def
        upper_def lower_def capitalize_def is_ascii_def ascii_toupper_def ascii_tolower_def)
  ultimately show ?thesis using main by blast
qed

theorem match_case_transfer_witness:
  "is_token (lit ''Teh'')
   \<and> match_case excerpt_db (lit ''Teh'') (lit ''tHE'') = lit ''The''"
proof -
  have t: "is_token (lit ''Teh'')"
    by (simp add: is_token_def lit_def is_word_start_def is_word_char_def
        ascii_isupper_def ascii_islower_def)
  have f: "first_upper_rest_lower (lit ''Teh'')"
    by (simp add: first_upper_rest_lower_def lit_def ascii_isupper_def ascii_islower_def)
  have "match_case excerpt_db (lit ''Teh'') (lit ''tHE'') = capitalize excerpt_db (lit ''tHE'')"
    using match_case_transfer[OF t, of excerpt_db "lit ''tHE''"] f by blast
  then show ?thesis
    using t by (simp add: capitalize_def lit_def is_ascii_def ascii_toupper_def ascii_tolower_def
        ascii_isupper_def ascii_islower_def)
qed

text \<open>
  The token \<open>O'Neil\<close> is neither all uppercase nor all lowercase, and it is not "first
  letter upper, rest lower"; yet \<^verbatim>\<open>istitle\<close> holds for it and the suggestion is
  capitalized, not left unchanged.
\<close>

theorem match_case_title_counterexample:
  "is_token (lit ''O'Neil'')
   \<and> match_case excerpt_db (lit ''O'Neil'') (lit ''O'Neal'') = lit ''O'neal''
   \<and> lit ''O'neal'' \<noteq> lit ''O'Neal''
   \<and> list_ex ascii_islower (lit ''O'Neil'')
   \<and> list_ex ascii_isupper (lit ''O'Neil'')
   \<and> \<not> first_upper_rest_lower (lit ''O'Neil'')
   \<and> istitle excerpt_db (lit ''O'Neil'')
   \<and> \<not> istitle excerpt_db (lit ''O'neal'')"
  by (simp add: match_case_def isupper_def istitle_def islower_def lit_def
        cp_isupper_def cp_islower_def cp_istitle_def ascii_isupper_def ascii_islower_def
        upper_def lower_def capitalize_def is_ascii_def ascii_toupper_def ascii_tolower_def
        is_token_def is_word_start_def is_word_char_def first_upper_rest_lower_def)

subsection \<open>\<^verbatim>\<open>normalize_charset\<close>\<close>

text \<open>
  \<^verbatim>\<open>
  def normalize_charset(text, target_charset):
      normalized = unicodedata.normalize("NFKC", text.replace("\r\n", "\n").replace("\r", "\n"))
      normalized = "".join(ch for ch in normalized
                           if ch == "\n" or ch == "\t" or unicodedata.category(ch)[0] != "C")
      if target_charset == "utf-8":
          return normalized
      if target_charset in {"latin-1", "ascii"}:
          codec = "latin-1" if target_charset == "latin-1" else "ascii"
          return normalized.encode(codec, errors="ignore").decode(codec)
      raise ValueError(f"Unsupported target charset: {target_charset}")
  \<close>
  The general category is a pair of letters. \<^verbatim>\<open>encode(codec, errors="ignore")\<close> drops the
  characters the codec cannot encode (from 256 on for Latin-1, from 128 on for ASCII) and
  maps each other character to the byte of its code point; \<^verbatim>\<open>decode\<close> maps the bytes back.
\<close>

definition ascii_category :: "codepoint \<Rightarrow> char \<times> char" where
  "ascii_category c =
     (if c < 32 \<or> c = 127 then (CHR ''C'', CHR ''c'')
      else if c = 32 then (CHR ''Z'', CHR ''s'')
      else if 48 \<le> c \<and> c \<le> 57 then (CHR ''N'', CHR ''d'')
      else if 65 \<le> c \<and> c \<le> 90 then (CHR ''L'', CHR ''u'')
      else if 97 \<le> c \<and> c \<le> 122 then (CHR ''L'', CHR ''l'')
      else if c = 36 then (CHR ''S'', CHR ''c'')
      else if c \<in> set [43, 60, 61, 62, 124, 126] then (CHR ''S'', CHR ''m'')
      else if c \<in> set [94, 96] then (CHR ''S'', CHR ''k'')
      else if c \<in> set [40, 91, 123] then (CHR ''P'', CHR ''s'')
      else if c \<in> set [41, 93, 125] then (CHR ''P'', CHR ''e'')
      else if c = 45 then (CHR ''P'', CHR ''d'')
      else if c = 95 then (CHR ''P'', CHR ''c'')
      else (CHR ''P'', CHR ''o''))"

definition category :: "'u unicode_db_scheme \<Rightarrow> codepoint \<Rightarrow> char \<times> char" where
  "category U c = (if c < 128 then ascii_category c else db_category U c)"

definition normalize_NFKC :: "'u unicode_db_scheme \<Rightarrow> str \<Rightarrow> str" where
  "normalize_NFKC U s = (if is_ascii s then s else db_normalize_NFKC U s)"

text \<open>\<^verbatim>\<open>str.replace(old, new)\<close>: the occurrences of \<open>old\<close>, left to right, without overlap.\<close>

function replace :: "'a list \<Rightarrow> 'a list \<Rightarrow> 'a list \<Rightarrow> 'a list" where
  "replace old new [] = (if old = [] then new else [])"
| "replace old new (c # s) =
     (if old = [] then new @ c # replace old new s
      else if take (length old) (c # s) = old
      then new @ replace old new (drop (length old) (c # s))
      else c # replace old new s)"
  by pat_completeness auto
termination
  by (relation "measure (\<lambda>(old, new, s). length s)") auto

definition encode_ignore :: "string \<Rightarrow> str \<Rightarrow> nat list" where
  "encode_ignore codec s = filter (\<lambda>ch. ch < (if codec = ''latin-1'' then 256 else 128)) s"

definition decode :: "string \<Rightarrow> nat list \<Rightarrow> str" where
  "decode codec bytes = bytes"

definition normalize_charset :: "'u unicode_db_scheme \<Rightarrow> str \<Rightarrow> string \<Rightarrow> error + str" where
  "normalize_charset U text target_charset =
     (let normalized = normalize_NFKC U (replace [13] [10] (replace [13, 10] [10] text));
          normalized = filter (\<lambda>ch. ch = 10 \<or> ch = 9 \<or> fst (category U ch) \<noteq> CHR ''C'') normalized
      in if target_charset = ''utf-8'' then Inr normalized
         else if target_charset \<in> {''latin-1'', ''ascii''}
         then (let codec = (if target_charset = ''latin-1'' then ''latin-1'' else ''ascii'')
               in Inr (decode codec (encode_ignore codec normalized)))
         else Inl (ValueError (''Unsupported target charset: '' @ target_charset)))"


declare replace.simps [simp del]

text \<open>The steps of the normalizer in the specification's words.\<close>

fun unify_line_endings :: "str \<Rightarrow> str" where
  "unify_line_endings [] = []"
| "unify_line_endings (c # s) =
     (if c = 13 then (case s of d # s' \<Rightarrow> if d = 10 then 10 # unify_line_endings s'
                                            else 10 # unify_line_endings s
                              | [] \<Rightarrow> [10])
      else c # unify_line_endings s)"

definition keep_char :: "'u unicode_db_scheme \<Rightarrow> codepoint \<Rightarrow> bool" where
  "keep_char U ch = (ch = 10 \<or> ch = 9 \<or> fst (category U ch) \<noteq> CHR ''C'')"

definition narrow :: "string \<Rightarrow> str \<Rightarrow> str" where
  "narrow target s =
     (if target = ''utf-8'' then s
      else if target = ''latin-1'' then filter (\<lambda>ch. ch < 256) s
      else filter (\<lambda>ch. ch < 128) s)"

definition recognized :: "string \<Rightarrow> bool" where
  "recognized target = (target = ''utf-8'' \<or> target = ''latin-1'' \<or> target = ''ascii'')"

lemma replace_cr: "replace [13] [10] s = map (\<lambda>c. if c = 13 then 10 else c) s"
  by (induction s) (simp_all add: replace.simps)

lemma map_cr_unify:
  "map (\<lambda>c. if c = 13 then 10 else c) (replace [13, 10] [10] s) = unify_line_endings s"
proof (induction s rule: unify_line_endings.induct)
  case 1
  then show ?case by (simp add: replace.simps)
next
  case (2 c s)
  show ?case
  proof (cases "c = 13")
    case False
    then show ?thesis using 2(3) by (simp add: replace.simps)
  next
    case True
    show ?thesis
    proof (cases s)
      case Nil
      then show ?thesis using True by (simp add: replace.simps)
    next
      case (Cons d s')
      show ?thesis
      proof (cases "d = 10")
        case d: True
        then show ?thesis using True Cons 2(1) by (simp add: replace.simps)
      next
        case d: False
        then show ?thesis using True Cons 2(2) by (simp add: replace.simps)
      qed
    qed
  qed
qed

lemma unify_replace: "replace [13] [10] (replace [13, 10] [10] s) = unify_line_endings s"
  by (simp add: replace_cr map_cr_unify)

lemma unify_no_cr: "13 \<notin> set (unify_line_endings s)"
  by (induction s rule: unify_line_endings.induct) (auto split: list.splits)


lemma keep_char_cr: "\<not> keep_char U 13"
  by (simp add: keep_char_def category_def ascii_category_def)

lemma normalize_charset_eq:
  "normalize_charset U t target =
     (if recognized target
      then Inr (narrow target (filter (keep_char U) (normalize_NFKC U (unify_line_endings t))))
      else Inl (ValueError (''Unsupported target charset: '' @ target)))"
  unfolding normalize_charset_def Let_def unify_replace
  by (auto simp: recognized_def narrow_def decode_def encode_ignore_def keep_char_def[abs_def])

lemma narrow_subset: "set (narrow target s) \<subseteq> set s"
  by (auto simp: narrow_def)



lemma narrow_ws:
  "filter (\<lambda>c. c = 10 \<or> c = 9) (narrow target s) = filter (\<lambda>c. c = 10 \<or> c = 9) s"
  by (auto simp: narrow_def filter_filter intro: filter_cong)

lemma keep_ws:
  "filter (\<lambda>c. c = 10 \<or> c = 9) (filter (keep_char U) s) = filter (\<lambda>c. c = 10 \<or> c = 9) s"
  by (auto simp: filter_filter keep_char_def intro: filter_cong)


text \<open>
  C4: \<open>normalize_charset\<close> fails with the unsupported-charset error (a \<^verbatim>\<open>ValueError\<close> whose
  message names the charset) for every target charset other than \<open>utf-8\<close>, \<open>latin-1\<close> and
  \<open>ascii\<close>, for instance for \<open>utf-16\<close>, and returns a string for each of these three.
\<close>

theorem normalize_charset_unsupported:
  "(\<not> recognized target \<longrightarrow>
      normalize_charset U t target = Inl (ValueError (''Unsupported target charset: '' @ target)))
   \<and> (recognized target \<longrightarrow> (\<exists>out. normalize_charset U t target = Inr out))
   \<and> normalize_charset U t ''utf-16'' = Inl (ValueError ''Unsupported target charset: utf-16'')
   \<and> recognized ''utf-8'' \<and> recognized ''latin-1'' \<and> recognized ''ascii''"
  by (simp add: normalize_charset_eq) (simp add: recognized_def)

theorem normalize_charset_unsupported_witness:
  "normalize_charset excerpt_db (lit ''abc'') ''UTF-8''
     = Inl (ValueError ''Unsupported target charset: UTF-8'')
   \<and> (\<exists>out. normalize_charset excerpt_db (lit ''abc'') ''latin-1'' = Inr out)"
proof -
  have 1: "\<not> recognized ''UTF-8''" by (simp add: recognized_def)
  have 2: "recognized ''latin-1''" by (simp add: recognized_def)
  show ?thesis
    using normalize_charset_unsupported[of "''UTF-8''" excerpt_db "lit ''abc''"]
      normalize_charset_unsupported[of "''latin-1''" excerpt_db "lit ''abc''"] 1 2
    by simp
qed

text \<open>
  C6: for a recognized target charset, \<open>normalize_charset\<close> first turns every \<open>\r\n\<close> and
  every other \<open>\r\<close> into \<open>\n\<close>, then applies NFKC, then strips and narrows; its result has
  no carriage return and no character of a general category in group C other than \<open>\n\<close>
  and \<open>\t\<close>, and the \<open>\n\<close> and \<open>\t\<close> of the NFKC form are all kept, in their order.
\<close>

theorem normalize_charset_postcondition:
  "recognized target \<longrightarrow>
     (\<exists>out. normalize_charset U t target = Inr out
        \<and> out = narrow target (filter (keep_char U) (normalize_NFKC U (unify_line_endings t)))
        \<and> 13 \<notin> set (unify_line_endings t)
        \<and> 13 \<notin> set out
        \<and> (\<forall>c\<in>set out. c = 10 \<or> c = 9 \<or> fst (category U c) \<noteq> CHR ''C'')
        \<and> filter (\<lambda>c. c = 10 \<or> c = 9) out
            = filter (\<lambda>c. c = 10 \<or> c = 9) (normalize_NFKC U (unify_line_endings t)))"
proof
  assume r: "recognized target"
  let ?out = "narrow target (filter (keep_char U) (normalize_NFKC U (unify_line_endings t)))"
  have 1: "normalize_charset U t target = Inr ?out" using r by (simp add: normalize_charset_eq)
  have k: "\<forall>c\<in>set ?out. keep_char U c" using narrow_subset[of target] by fastforce
  then have 2: "13 \<notin> set ?out" using keep_char_cr[of U] by blast
  have 3: "\<forall>c\<in>set ?out. c = 10 \<or> c = 9 \<or> fst (category U c) \<noteq> CHR ''C''"
    using k by (simp add: keep_char_def)
  have 4: "filter (\<lambda>c. c = 10 \<or> c = 9) ?out
      = filter (\<lambda>c. c = 10 \<or> c = 9) (normalize_NFKC U (unify_line_endings t))"
    by (simp only: narrow_ws keep_ws)
  show "\<exists>out. normalize_charset U t target = Inr out
        \<and> out = narrow target (filter (keep_char U) (normalize_NFKC U (unify_line_endings t)))
        \<and> 13 \<notin> set (unify_line_endings t)
        \<and> 13 \<notin> set out
        \<and> (\<forall>c\<in>set out. c = 10 \<or> c = 9 \<or> fst (category U c) \<noteq> CHR ''C'')
        \<and> filter (\<lambda>c. c = 10 \<or> c = 9) out
            = filter (\<lambda>c. c = 10 \<or> c = 9) (normalize_NFKC U (unify_line_endings t))"
    using 1 2 3 4 unify_no_cr[of t] by blast
qed



theorem normalize_charset_postcondition_witness:
  "normalize_charset excerpt_db [0x65, 13, 10, 13, 0x301, 9, 7, 13] ''utf-8''
     = Inr [0x65, 10, 10, 0x301, 9, 10]
   \<and> 13 \<notin> set [0x65, 10, 10, 0x301, 9, 10 :: nat]
   \<and> filter (\<lambda>c. c = 10 \<or> c = 9) [0x65, 10, 10, 0x301, 9, 10 :: nat] = [10, 10, 9, 10]"
proof -
  let ?t = "[0x65, 13, 10, 13, 0x301, 9, 7, 13] :: str"
  have r: "recognized ''utf-8''" by (simp add: recognized_def)
  from normalize_charset_postcondition[of "''utf-8''" excerpt_db ?t] r
  obtain out where o: "normalize_charset excerpt_db ?t ''utf-8'' = Inr out"
    and cr: "13 \<notin> set out"
    and ws: "filter (\<lambda>c. c = 10 \<or> c = 9) out
        = filter (\<lambda>c. c = 10 \<or> c = 9) (normalize_NFKC excerpt_db (unify_line_endings ?t))"
    by blast
  have "normalize_charset excerpt_db ?t ''utf-8'' = Inr [0x65, 10, 10, 0x301, 9, 10]"
    by (simp add: normalize_charset_eq recognized_def narrow_def keep_char_def category_def
      ascii_category_def normalize_NFKC_def is_ascii_def excerpt_db_def excerpt_decompose_def)
  with o have out: "out = [0x65, 10, 10, 0x301, 9, 10]" by simp
  have "normalize_NFKC excerpt_db (unify_line_endings ?t) = [0x65, 10, 10, 0x301, 9, 7, 10]"
    by (simp add: normalize_NFKC_def is_ascii_def excerpt_db_def excerpt_decompose_def)
  then show ?thesis using o cr ws unfolding out by simp
qed


subsection \<open>\<^verbatim>\<open>TextCleaner.clean\<close>\<close>

text \<open>
  \<^verbatim>\<open>
  def clean(self, raw_text):
      normalized = normalize_charset(raw_text, self.config.target_charset)
      cleaned = normalized
      replacement_counter = Counter()
      if self.config.spellcheck and self._dictionary is not None:
          pieces = []
          cursor = 0
          for match in WORD_RE.finditer(normalized):
              start, end = match.span()
              token = match.group(0)
              replacement = token
              if not self._dictionary.check(token):
                  suggestions = self._dictionary.suggest(token)
                  if suggestions:
                      candidate = suggestions[0]
                      candidate = _match_case(token, candidate)
                      distance = _edit_distance(token.lower(), candidate.lower())
                      if distance <= self.config.max_suggestion_distance:
                          replacement = candidate
              pieces.append(normalized[cursor:start])
              pieces.append(replacement)
              cursor = end
              if replacement != token:
                  replacement_counter[(token, replacement)] += 1
          pieces.append(normalized[cursor:])
          cleaned = "".join(pieces)
      edits = build_edits(raw_text, cleaned)
      top_replacements = [{"from": source, "to": target, "count": count}
                          for (source, target), count in replacement_counter.most_common(8)]
      return {"cleaned_text": cleaned, "edits": edits,
              "input_md5": md5_text(raw_text), "output_md5": md5_text(cleaned),
              "changed": raw_text != cleaned,
              "summary": {"edit_count": len(edits), "top_replacements": top_replacements}}
  \<close>
  The dictionary of the \<^verbatim>\<open>enchant\<close> library is a parameter with its two methods.
  \<open>finditer\<close> gives the spans of the matches of \<^verbatim>\<open>WORD_RE\<close>, \<open>token_replacement\<close> is the
  decision of the loop for one token, \<open>spell_loop\<close> the loop and \<open>spell_correct\<close> the
  branch on the configuration around it.
\<close>

record enchant_dict =
  check :: "str \<Rightarrow> bool"
  suggest :: "str \<Rightarrow> str list"

record cleaner_config =
  target_charset :: string
  spellcheck :: bool
  language :: string
  max_suggestion_distance :: int

record text_cleaner =
  config :: cleaner_config
  dictionary :: "enchant_dict option"

text \<open>
  \<^verbatim>\<open>md5_text(text)\<close> is \<^verbatim>\<open>md5(text.encode("utf-8")).hexdigest()\<close>. The UTF-8 codec refuses
  the surrogate code points U+D800 to U+DFFF with a \<^verbatim>\<open>UnicodeEncodeError\<close>; the digest
  function of \<^verbatim>\<open>hashlib\<close> is a parameter.
\<close>

fun encode_utf8 :: "str \<Rightarrow> error + nat list" where
  "encode_utf8 [] = Inr []"
| "encode_utf8 (c # s) =
     (if 0xD800 \<le> c \<and> c \<le> 0xDFFF then Inl UnicodeEncodeError
      else case encode_utf8 s of
             Inl e \<Rightarrow> Inl e
           | Inr bytes \<Rightarrow>
               Inr ((if c < 0x80 then [c]
                     else if c < 0x800 then [0xC0 + c div 64, 0x80 + c mod 64]
                     else if c < 0x10000
                     then [0xE0 + c div 4096, 0x80 + c div 64 mod 64, 0x80 + c mod 64]
                     else [0xF0 + c div 262144, 0x80 + c div 4096 mod 64,
                           0x80 + c div 64 mod 64, 0x80 + c mod 64]) @ bytes))"

definition md5_text :: "(nat list \<Rightarrow> string) \<Rightarrow> str \<Rightarrow> error + string" where
  "md5_text md5_hexdigest text =
     (case encode_utf8 text of Inl e \<Rightarrow> Inl e | Inr bytes \<Rightarrow> Inr (md5_hexdigest bytes))"

text \<open>
  \<^verbatim>\<open>replacement_counter\<close> is a \<^verbatim>\<open>Counter\<close>: a dictionary from pairs to counts that keeps
  the order in which the pairs were first counted. \<^verbatim>\<open>most_common(n)\<close> gives the \<open>n\<close> pairs
  with the largest counts, pairs of equal count in that order.
\<close>

type_synonym replacement_counter = "((str \<times> str) \<times> nat) list"

fun counter_incr :: "str \<times> str \<Rightarrow> replacement_counter \<Rightarrow> replacement_counter" where
  "counter_incr key [] = [(key, 1)]"
| "counter_incr key ((k, n) # rest) =
     (if k = key then (k, n + 1) # rest else (k, n) # counter_incr key rest)"

definition most_common :: "nat \<Rightarrow> replacement_counter \<Rightarrow> replacement_counter" where
  "most_common n counter = take n (sort_key (\<lambda>item. - int (snd item)) counter)"

record top_replacement =
  from' :: str
  to' :: str
  count' :: nat

record summary =
  edit_count :: nat
  top_replacements :: "top_replacement list"

record cleaning_result =
  cleaned_text :: str
  edits :: "codepoint edit list"
  input_md5 :: string
  output_md5 :: string
  changed :: bool
  summary :: summary

function finditer :: "nat \<Rightarrow> str \<Rightarrow> (nat \<times> nat) list" where
  "finditer pos [] = []"
| "finditer pos (c # s) =
     (if is_word_start c \<and> s \<noteq> [] \<and> is_word_char (hd s)
      then (pos, pos + 1 + length (takeWhile is_word_char s))
           # finditer (pos + 1 + length (takeWhile is_word_char s)) (dropWhile is_word_char s)
      else finditer (pos + 1) s)"
  by pat_completeness auto
termination
  by (relation "measure (\<lambda>(pos, s). length s)") (auto simp: length_dropWhile_le less_Suc_eq_le)

definition token_replacement :: "'u unicode_db_scheme \<Rightarrow> enchant_dict \<Rightarrow> int \<Rightarrow> str \<Rightarrow> str" where
  "token_replacement U d max_distance token =
     (if \<not> check d token
      then (let suggestions = suggest d token
            in if suggestions \<noteq> []
               then (let candidate = match_case U token (hd suggestions);
                         distance = edit_distance (lower U token) (lower U candidate)
                     in if int distance \<le> max_distance then candidate else token)
               else token)
      else token)"

fun spell_loop :: "'u unicode_db_scheme \<Rightarrow> enchant_dict \<Rightarrow> int \<Rightarrow> str
    \<Rightarrow> str list \<times> int \<times> replacement_counter \<Rightarrow> (nat \<times> nat) list
    \<Rightarrow> str \<times> replacement_counter" where
  "spell_loop U d max_distance normalized (pieces, cursor, counter) [] =
     (concat (pieces @ [slice_from normalized cursor]), counter)"
| "spell_loop U d max_distance normalized (pieces, cursor, counter)
       ((start_pos, end_pos) # matches) =
     (let token = slice normalized (int start_pos) (int end_pos);
          repl = token_replacement U d max_distance token
      in spell_loop U d max_distance normalized
           (pieces @ [slice normalized cursor (int start_pos)] @ [repl], int end_pos,
            if repl \<noteq> token then counter_incr (token, repl) counter else counter)
           matches)"

definition spell_correct :: "'u unicode_db_scheme \<Rightarrow> text_cleaner \<Rightarrow> str \<Rightarrow> str \<times> replacement_counter" where
  "spell_correct U self normalized =
     (case dictionary self of
        Some d \<Rightarrow>
          if spellcheck (config self)
          then spell_loop U d (max_suggestion_distance (config self)) normalized
                 ([], 0, []) (finditer 0 normalized)
          else (normalized, [])
      | None \<Rightarrow> (normalized, []))"

definition clean :: "'u unicode_db_scheme \<Rightarrow> (nat list \<Rightarrow> string) \<Rightarrow> text_cleaner \<Rightarrow> str
    \<Rightarrow> error + cleaning_result" where
  "clean U md5_hexdigest self raw_text =
     (case normalize_charset U raw_text (target_charset (config self)) of
        Inl e \<Rightarrow> Inl e
      | Inr normalized \<Rightarrow>
          (let (cleaned, replacement_counter) = spell_correct U self normalized;
               es = build_edits raw_text cleaned;
               top = map (\<lambda>((source, target), n). \<lparr>from' = source, to' = target, count' = n\<rparr>)
                       (most_common 8 replacement_counter)
           in case md5_text md5_hexdigest raw_text of
                Inl e \<Rightarrow> Inl e
              | Inr digest_in \<Rightarrow>
                  (case md5_text md5_hexdigest cleaned of
                     Inl e \<Rightarrow> Inl e
                   | Inr digest_out \<Rightarrow>
                       Inr \<lparr>cleaned_text = cleaned, edits = es,
                            input_md5 = digest_in, output_md5 = digest_out,
                            changed = (raw_text \<noteq> cleaned),
                            summary = \<lparr>edit_count = length es, top_replacements = top\<rparr>\<rparr>)))"

text \<open>
  A dictionary, a stand-in for the digest function and a cleaner, to run the model on
  concrete texts.
\<close>

definition demo_dict :: enchant_dict where
  "demo_dict = \<lparr>check = (\<lambda>w. w \<notin> set [lit ''Recieve'', lit ''pakage'', lit ''teh'']),
                suggest = (\<lambda>w. if w = lit ''Recieve'' then [lit ''Receive'', lit ''Relieve'']
                                else if w = lit ''pakage'' then [lit ''package'']
                                else if w = lit ''teh'' then [lit ''the'', lit ''tea'']
                                else [])\<rparr>"

definition demo_md5 :: "nat list \<Rightarrow> string" where
  "demo_md5 bytes = replicate 32 CHR ''0''"

definition demo_cleaner :: "int \<Rightarrow> text_cleaner" where
  "demo_cleaner n = \<lparr>config = \<lparr>target_charset = ''utf-8'', spellcheck = True,
                                 language = ''en_US'', max_suggestion_distance = n\<rparr>,
                      dictionary = Some demo_dict\<rparr>"


declare finditer.simps [simp del]

text \<open>
  The specification's words for the spell corrector: the candidate is the top suggestion
  with the case of the token; it is accepted for a token the dictionary rejects, when
  there is a suggestion and the distance between the lowercased token and the lowercased
  candidate is at most the maximum; otherwise the token is kept.
\<close>

definition gate_accepts :: "'u unicode_db_scheme \<Rightarrow> enchant_dict \<Rightarrow> int \<Rightarrow> str \<Rightarrow> bool" where
  "gate_accepts U d max_distance token =
     (\<not> check d token \<and> suggest d token \<noteq> []
      \<and> int (edit_distance (lower U token)
                (lower U (match_case U token (hd (suggest d token))))) \<le> max_distance)"

definition gated_token :: "'u unicode_db_scheme \<Rightarrow> enchant_dict \<Rightarrow> int \<Rightarrow> str \<Rightarrow> str" where
  "gated_token U d max_distance token =
     (if gate_accepts U d max_distance token
      then match_case U token (hd (suggest d token)) else token)"

text \<open>
  The end of the match before the \<open>k\<close>-th one (0 before the first), and the positions at
  which \<^verbatim>\<open>WORD_RE\<close> can match: a letter followed by a letter or an apostrophe.
\<close>

definition match_cursor :: "(nat \<times> nat) list \<Rightarrow> nat \<Rightarrow> nat" where
  "match_cursor ms k = (if k = 0 then 0 else snd (ms ! (k - 1)))"

definition matchable :: "str \<Rightarrow> nat \<Rightarrow> bool" where
  "matchable t i = (Suc i < length t \<and> is_word_start (t ! i) \<and> is_word_char (t ! Suc i))"

definition corrected_text :: "'u unicode_db_scheme \<Rightarrow> enchant_dict \<Rightarrow> int \<Rightarrow> str \<Rightarrow> (nat \<times> nat) list \<Rightarrow> str" where
  "corrected_text U d max_distance normalized ms =
     concat (map (\<lambda>k. slice normalized (int (match_cursor ms k)) (int (fst (ms ! k)))
                       @ gated_token U d max_distance
                           (slice normalized (int (fst (ms ! k))) (int (snd (ms ! k)))))
               [0..<length ms])
     @ slice_from normalized (int (match_cursor ms (length ms)))"

lemma token_replacement_gated:
  "token_replacement U d max_distance token = gated_token U d max_distance token"
  by (auto simp: token_replacement_def gated_token_def gate_accepts_def Let_def)

definition cursor_from :: "int \<Rightarrow> (nat \<times> nat) list \<Rightarrow> nat \<Rightarrow> int" where
  "cursor_from c ms k = (if k = 0 then c else int (snd (ms ! (k - 1))))"

lemma cursor_from_Cons: "cursor_from c (m # ms) (Suc k) = cursor_from (int (snd m)) ms k"
  by (cases k) (simp_all add: cursor_from_def)

lemma spell_loop_text:
  "fst (spell_loop U d max_distance normalized (pieces, cursor, counter) ms)
     = concat pieces
       @ concat (map (\<lambda>k. slice normalized (cursor_from cursor ms k) (int (fst (ms ! k)))
                         @ gated_token U d max_distance
                             (slice normalized (int (fst (ms ! k))) (int (snd (ms ! k)))))
                 [0..<length ms])
       @ slice_from normalized (cursor_from cursor ms (length ms))"
proof (induction ms arbitrary: pieces cursor counter)
  case Nil
  then show ?case by (simp add: cursor_from_def)
next
  case (Cons m ms)
  obtain s e where m: "m = (s, e)" by (cases m) auto
  have up: "[0..<Suc (length ms)] = 0 # map Suc [0..<length ms]"
    by (simp add: upt_conv_Cons map_Suc_upt del: upt_Suc)
  have c0: "cursor_from cursor ((s, e) # ms) 0 = cursor" by (simp add: cursor_from_def)
  show ?case
    unfolding m
    by (simp add: Cons.IH Let_def token_replacement_gated cursor_from_Cons c0 up
        o_def del: upt_Suc)
qed


fun spans_from :: "nat \<Rightarrow> (nat \<times> nat) list \<Rightarrow> bool" where
  "spans_from c [] = True"
| "spans_from c ((a, b) # ms) = (c \<le> a \<and> a < b \<and> spans_from b ms)"

lemma spans_from_mono: "spans_from c ms \<Longrightarrow> c' \<le> c \<Longrightarrow> spans_from c' ms"
  by (cases ms) auto

lemma spans_from_nth:
  "spans_from c ms \<Longrightarrow> k < length ms \<Longrightarrow>
     (if k = 0 then c else snd (ms ! (k - 1))) \<le> fst (ms ! k) \<and> fst (ms ! k) < snd (ms ! k)"
proof (induction ms arbitrary: c k)
  case Nil
  then show ?case by simp
next
  case (Cons m ms)
  obtain a b where m: "m = (a, b)" by (cases m) auto
  show ?case
  proof (cases k)
    case 0
    then show ?thesis using Cons.prems m by simp
  next
    case (Suc j)
    have "spans_from b ms" "j < length ms" using Cons.prems m Suc by simp_all
    from Cons.IH[OF this]
    show ?thesis using Suc m by (cases j) simp_all
  qed
qed

lemma token_span:
  assumes "is_word_start c" "s \<noteq> []" "is_word_char (hd s)"
  shows "is_token (c # takeWhile is_word_char s)"
proof -
  obtain x s' where s: "s = x # s'" using assms(2) by (cases s) auto
  then have "takeWhile is_word_char s = x # takeWhile is_word_char s'"
    using assms(3) by simp
  moreover have "list_all is_word_char (takeWhile is_word_char s)"
    by (simp add: list_all_iff) (meson set_takeWhileD)
  ultimately show ?thesis using assms(1) by (simp add: is_token_def)
qed

lemma finditer_spans:
  "length pre = pos \<Longrightarrow>
     spans_from pos (finditer pos s)
     \<and> (\<forall>(a, b)\<in>set (finditer pos s).
           pos \<le> a \<and> b \<le> length (pre @ s) \<and> is_token (take (b - a) (drop a (pre @ s)))
           \<and> (b < length (pre @ s) \<longrightarrow> \<not> is_word_char ((pre @ s) ! b)))
     \<and> (\<forall>i\<ge>pos. matchable (pre @ s) i \<longrightarrow> (\<exists>(a, b)\<in>set (finditer pos s). a \<le> i \<and> i < b))"
proof (induction pos s arbitrary: pre rule: finditer.induct)
  case (1 pos)
  then show ?case by (auto simp: finditer.simps matchable_def)
next
  case (2 pos c s)
  let ?t = "pre @ c # s"
  show ?case
  proof (cases "is_word_start c \<and> s \<noteq> [] \<and> is_word_char (hd s)")
    case True
    let ?w = "takeWhile is_word_char s"
    let ?r = "dropWhile is_word_char s"
    let ?e = "pos + 1 + length ?w"
    let ?pre = "pre @ c # ?w"
    have sp: "?w @ ?r = s" by simp
    have t: "?pre @ ?r = ?t" by simp
    have len: "length ?pre = ?e" using 2(3) by simp
    have eq: "finditer pos (c # s) = (pos, ?e) # finditer ?e ?r"
      using True by (simp add: finditer.simps)
    note ih = 2(1)[OF True len, unfolded t]
    have w1: "?w \<noteq> []" using True by (cases s) auto
    have tok: "is_token (take (?e - pos) (drop pos ?t))"
    proof -
      have "drop pos ?t = c # s" using 2(3) by simp
      moreover have "take (1 + length ?w) (c # s) = c # ?w"
        by (simp add: takeWhile_eq_take[symmetric])
      ultimately have "take (?e - pos) (drop pos ?t) = c # ?w" by simp
      then show ?thesis using token_span True by simp
    qed
    have mx: "\<not> is_word_char (?t ! ?e)" if "?e < length ?t"
    proof -
      have r: "?r \<noteq> []" using that 2(3) sp
        by (metis add.commute add_Suc_right append_Nil2 length_Cons length_append less_irrefl_nat plus_1_eq_Suc)
      obtain x r' where rr: "?r = x # r'" using r by (cases ?r) auto
      have nx: "\<not> is_word_char x" using hd_dropWhile[OF r] rr by simp
      have "?t = ?pre @ x # r'" using t rr by metis
      then have "?t ! length ?pre = x" by (metis nth_append_length)
      then show ?thesis using nx len by metis
    qed
    have ebound: "?e \<le> length ?t"
      using 2(3) length_takeWhile_le[of is_word_char s] by simp
    have p1: "spans_from pos (finditer pos (c # s))"
      using ih w1 by (simp add: eq)
    have p2: "\<forall>(a, b)\<in>set (finditer pos (c # s)).
           pos \<le> a \<and> b \<le> length ?t \<and> is_token (take (b - a) (drop a ?t))
           \<and> (b < length ?t \<longrightarrow> \<not> is_word_char (?t ! b))"
      unfolding eq using ih tok mx ebound by auto
    have p3: "\<exists>(a, b)\<in>set (finditer pos (c # s)). a \<le> i \<and> i < b"
      if i: "pos \<le> i" "matchable ?t i" for i
    proof (cases "i < ?e")
      case True
      then show ?thesis using i unfolding eq by auto
    next
      case False
      then have "?e \<le> i" by simp
      then have "\<exists>(a, b)\<in>set (finditer ?e ?r). a \<le> i \<and> i < b" using ih i(2) by blast
      then show ?thesis unfolding eq by auto
    qed
    show ?thesis using p1 p2 p3 by blast
  next
    case False
    let ?pre = "pre @ [c]"
    have t: "?pre @ s = ?t" by simp
    have len: "length ?pre = pos + 1" using 2(3) by simp
    have eq: "finditer pos (c # s) = finditer (pos + 1) s"
      using False by (auto simp: finditer.simps)
    note ih = 2(2)[OF False len, unfolded t]
    have p1: "spans_from pos (finditer pos (c # s))"
      unfolding eq using ih spans_from_mono[of "pos + 1" _ pos] by simp
    have p2: "\<forall>(a, b)\<in>set (finditer pos (c # s)).
           pos \<le> a \<and> b \<le> length ?t \<and> is_token (take (b - a) (drop a ?t))
           \<and> (b < length ?t \<longrightarrow> \<not> is_word_char (?t ! b))"
      unfolding eq using ih by fastforce
    have p3: "\<exists>(a, b)\<in>set (finditer pos (c # s)). a \<le> i \<and> i < b"
      if i: "pos \<le> i" "matchable ?t i" for i
    proof (cases "i = pos")
      case True
      have "?t ! pos = c" using 2(3) by (simp add: nth_append)
      moreover have "Suc pos < length ?t \<Longrightarrow> s \<noteq> [] \<and> ?t ! Suc pos = hd s"
        using 2(3) by (cases s) (auto simp: nth_append)
      ultimately have "is_word_start c \<and> s \<noteq> [] \<and> is_word_char (hd s)"
        using i(2) True by (auto simp: matchable_def)
      then show ?thesis using False by simp
    next
      case ne: False
      then have "pos + 1 \<le> i" using i(1) by simp
      then show ?thesis unfolding eq using ih i(2) by blast
    qed
    show ?thesis using p1 p2 p3 by blast
  qed
qed


lemma corrected_text_spell_loop:
  "fst (spell_loop U d max_distance normalized ([], 0, []) ms)
     = corrected_text U d max_distance normalized ms"
proof -
  have "cursor_from 0 ms k = int (match_cursor ms k)" for k
    by (simp add: cursor_from_def match_cursor_def)
  then show ?thesis
    using spell_loop_text[of U d max_distance normalized "[]" 0 "[]" ms]
    by (simp add: corrected_text_def)
qed

lemma clean_cleaned_text:
  assumes "normalize_charset U raw_text (target_charset (config self)) = Inr normalized"
    and "clean U md5_hexdigest self raw_text = Inr r"
  shows "cleaned_text r = fst (spell_correct U self normalized)"
  using assms(2) unfolding clean_def assms(1) Let_def
  by (auto split: sum.splits prod.splits)

lemma finditer_matches:
  fixes t :: str
  defines "ms \<equiv> finditer 0 t"
  shows "\<forall>k<length ms.
           match_cursor ms k \<le> fst (ms ! k) \<and> fst (ms ! k) < snd (ms ! k)
           \<and> snd (ms ! k) \<le> length t
           \<and> is_token (slice t (int (fst (ms ! k))) (int (snd (ms ! k))))
           \<and> (snd (ms ! k) < length t \<longrightarrow> \<not> is_word_char (t ! snd (ms ! k)))"
    and "\<forall>i. matchable t i \<longrightarrow> (\<exists>k<length ms. fst (ms ! k) \<le> i \<and> i < snd (ms ! k))"
proof -
  note sp = finditer_spans[of "[]" 0 t, simplified, folded ms_def]
  have chain: "spans_from 0 ms" using sp by blast
  have each: "\<forall>(a, b)\<in>set ms. b \<le> length t \<and> is_token (take (b - a) (drop a t))
           \<and> (b < length t \<longrightarrow> \<not> is_word_char (t ! b))"
    using sp by blast
  have cover: "\<forall>i. matchable t i \<longrightarrow> (\<exists>(a, b)\<in>set ms. a \<le> i \<and> i < b)"
    using sp by blast
  show "\<forall>k<length ms.
           match_cursor ms k \<le> fst (ms ! k) \<and> fst (ms ! k) < snd (ms ! k)
           \<and> snd (ms ! k) \<le> length t
           \<and> is_token (slice t (int (fst (ms ! k))) (int (snd (ms ! k))))
           \<and> (snd (ms ! k) < length t \<longrightarrow> \<not> is_word_char (t ! snd (ms ! k)))"
  proof (intro allI impI)
    fix k assume k: "k < length ms"
    obtain a b where ab: "ms ! k = (a, b)" by (cases "ms ! k") auto
    have o: "match_cursor ms k \<le> a \<and> a < b"
      using spans_from_nth[OF chain k] ab by (simp add: match_cursor_def)
    have "(a, b) \<in> set ms" using k ab by (metis nth_mem)
    then have e: "b \<le> length t \<and> is_token (take (b - a) (drop a t))
           \<and> (b < length t \<longrightarrow> \<not> is_word_char (t ! b))"
      using each by blast
    have "slice t (int a) (int b) = take (b - a) (drop a t)"
      using slice_nat[of a b t] o e by simp
    then show "match_cursor ms k \<le> fst (ms ! k) \<and> fst (ms ! k) < snd (ms ! k)
           \<and> snd (ms ! k) \<le> length t
           \<and> is_token (slice t (int (fst (ms ! k))) (int (snd (ms ! k))))
           \<and> (snd (ms ! k) < length t \<longrightarrow> \<not> is_word_char (t ! snd (ms ! k)))"
      using o e ab by simp
  qed
  show "\<forall>i. matchable t i \<longrightarrow> (\<exists>k<length ms. fst (ms ! k) \<le> i \<and> i < snd (ms ! k))"
  proof (intro allI impI)
    fix i assume "matchable t i"
    then obtain a b where m: "(a, b) \<in> set ms" and i: "a \<le> i" "i < b" using cover by blast
    then obtain k where "k < length ms" "ms ! k = (a, b)" by (metis in_set_conv_nth)
    then show "\<exists>k<length ms. fst (ms ! k) \<le> i \<and> i < snd (ms ! k)" using i by auto
  qed
qed

text \<open>
  C8: when \<open>clean\<close> returns, its cleaned text is the text of \<open>spell_correct\<close>: the
  normalized text when there is no dictionary or the spellcheck is off, and otherwise,
  for the matches of \<^verbatim>\<open>WORD_RE\<close> from left to right, the text between the matches
  unchanged and for every token either the token or its candidate, the top suggestion
  with the case of the token. The candidate is written exactly if the dictionary rejects
  the token, suggests something, and the edit distance between the lowercased token and
  the lowercased candidate is at most the configured maximum; otherwise the token is
  written unchanged. The matches are tokens, each as long as possible, in ascending
  order, and every position where the pattern can match lies in one of them. A candidate
  2 edits away is rejected with the maximum 1 and accepted with the maximum 2.
\<close>

theorem distance_gate:
  assumes "normalize_charset U raw_text (target_charset (config self)) = Inr normalized"
    and "clean U md5_hexdigest self raw_text = Inr r"
  shows "cleaned_text r = fst (spell_correct U self normalized)
    \<and> (dictionary self = None \<or> \<not> spellcheck (config self) \<longrightarrow> cleaned_text r = normalized)
    \<and> (\<forall>d. dictionary self = Some d \<and> spellcheck (config self) \<longrightarrow>
          cleaned_text r
            = corrected_text U d (max_suggestion_distance (config self)) normalized
                (finditer 0 normalized))
    \<and> (\<forall>k<length (finditer 0 normalized).
          match_cursor (finditer 0 normalized) k \<le> fst (finditer 0 normalized ! k)
          \<and> fst (finditer 0 normalized ! k) < snd (finditer 0 normalized ! k)
          \<and> snd (finditer 0 normalized ! k) \<le> length normalized
          \<and> is_token (slice normalized (int (fst (finditer 0 normalized ! k)))
                                        (int (snd (finditer 0 normalized ! k))))
          \<and> (snd (finditer 0 normalized ! k) < length normalized \<longrightarrow>
                \<not> is_word_char (normalized ! snd (finditer 0 normalized ! k))))
    \<and> (\<forall>i. matchable normalized i \<longrightarrow>
          (\<exists>k<length (finditer 0 normalized).
             fst (finditer 0 normalized ! k) \<le> i \<and> i < snd (finditer 0 normalized ! k)))
    \<and> (\<forall>d token. \<not> check d token \<and> suggest d token \<noteq> []
          \<and> edit_distance (lower U token) (lower U (match_case U token (hd (suggest d token)))) = 2
          \<longrightarrow> gated_token U d 1 token = token
              \<and> gated_token U d 2 token = match_case U token (hd (suggest d token)))"
proof -
  note c = clean_cleaned_text[OF assms]
  have 1: "cleaned_text r = normalized" if "dictionary self = None \<or> \<not> spellcheck (config self)"
    using that c by (auto simp: spell_correct_def split: option.splits)
  have 2: "cleaned_text r
            = corrected_text U d (max_suggestion_distance (config self)) normalized
                (finditer 0 normalized)"
    if "dictionary self = Some d \<and> spellcheck (config self)" for d
    using that c by (simp add: spell_correct_def corrected_text_spell_loop)
  have 3: "gated_token U d 1 token = token
      \<and> gated_token U d 2 token = match_case U token (hd (suggest d token))"
    if "\<not> check d token \<and> suggest d token \<noteq> []
          \<and> edit_distance (lower U token) (lower U (match_case U token (hd (suggest d token)))) = 2"
    for d token
    using that by (simp add: gated_token_def gate_accepts_def)
  show ?thesis
    using c 1 2 3 finditer_matches[of normalized] by blast
qed


theorem distance_gate_witness:
  "clean excerpt_db demo_md5 (demo_cleaner 2) (lit ''teh cat teh'') =
     Inr \<lparr>cleaned_text = lit ''the cat the'',
          edits = [\<lparr>start = 1, end' = 1, replacement = lit ''h''\<rparr>,
                   \<lparr>start = 2, end' = 3, replacement = []\<rparr>,
                   \<lparr>start = 9, end' = 9, replacement = lit ''h''\<rparr>,
                   \<lparr>start = 10, end' = 11, replacement = []\<rparr>],
          input_md5 = replicate 32 CHR ''0'', output_md5 = replicate 32 CHR ''0'',
          changed = True,
          summary = \<lparr>edit_count = 4,
                      top_replacements =
                        [\<lparr>from' = lit ''teh'', to' = lit ''the'', count' = 2\<rparr>]\<rparr>\<rparr>
   \<and> corrected_text excerpt_db demo_dict 2 (lit ''teh cat teh'') (finditer 0 (lit ''teh cat teh''))
       = lit ''the cat the''
   \<and> clean excerpt_db demo_md5 (demo_cleaner 1) (lit ''teh cat teh'') =
     Inr \<lparr>cleaned_text = lit ''teh cat teh'', edits = [],
          input_md5 = replicate 32 CHR ''0'', output_md5 = replicate 32 CHR ''0'',
          changed = False,
          summary = \<lparr>edit_count = 0, top_replacements = []\<rparr>\<rparr>
   \<and> corrected_text excerpt_db demo_dict 1 (lit ''teh cat teh'') (finditer 0 (lit ''teh cat teh''))
       = lit ''teh cat teh''
   \<and> finditer 0 (lit ''teh cat teh'') = [(0, 3), (4, 7), (8, 11)]"
proof -
  let ?raw = "lit ''teh cat teh''"
  let ?r2 = "\<lparr>cleaned_text = lit ''the cat the'',
          edits = [\<lparr>start = 1, end' = 1, replacement = lit ''h''\<rparr>,
                   \<lparr>start = 2, end' = 3, replacement = []\<rparr>,
                   \<lparr>start = 9, end' = 9, replacement = lit ''h''\<rparr>,
                   \<lparr>start = 10, end' = 11, replacement = []\<rparr>],
          input_md5 = replicate 32 CHR ''0'', output_md5 = replicate 32 CHR ''0'',
          changed = True,
          summary = \<lparr>edit_count = 4,
                      top_replacements =
                        [\<lparr>from' = lit ''teh'', to' = lit ''the'', count' = 2\<rparr>]\<rparr>\<rparr>"
  let ?r1 = "\<lparr>cleaned_text = lit ''teh cat teh'', edits = [],
          input_md5 = replicate 32 CHR ''0'', output_md5 = replicate 32 CHR ''0'',
          changed = False,
          summary = \<lparr>edit_count = 0, top_replacements = []\<rparr>\<rparr>"
  have n: "normalize_charset excerpt_db ?raw ''utf-8'' = Inr ?raw"
    by (simp add: normalize_charset_eq recognized_def narrow_def keep_char_def category_def
        ascii_category_def normalize_NFKC_def is_ascii_def lit_def)
  have s2: "spell_correct excerpt_db (demo_cleaner 2) ?raw
      = (lit ''the cat the'', [((lit ''teh'', lit ''the''), 2)])"
    by code_simp
  have s1: "spell_correct excerpt_db (demo_cleaner 1) ?raw = (?raw, [])"
    by code_simp
  have b2: "build_edits ?raw (lit ''the cat the'')
      = [\<lparr>start = 1, end' = 1, replacement = lit ''h''\<rparr>,
         \<lparr>start = 2, end' = 3, replacement = []\<rparr>,
         \<lparr>start = 9, end' = 9, replacement = lit ''h''\<rparr>,
         \<lparr>start = 10, end' = 11, replacement = []\<rparr>]"
    by code_simp
  have b1: "build_edits ?raw ?raw = []"
    by code_simp
  have m: "md5_text demo_md5 ?raw = Inr (replicate 32 CHR ''0'')"
    "md5_text demo_md5 (lit ''the cat the'') = Inr (replicate 32 CHR ''0'')"
    by (simp_all add: md5_text_def demo_md5_def lit_def)
  have t: "most_common 8 [((lit ''teh'', lit ''the''), 2)] = [((lit ''teh'', lit ''the''), 2)]"
    "most_common 8 [] = []"
    by (simp_all add: most_common_def)
  have ne: "?raw \<noteq> lit ''the cat the''" by (simp add: lit_def)
  have c2: "clean excerpt_db demo_md5 (demo_cleaner 2) ?raw = Inr ?r2"
    unfolding clean_def by (simp add: demo_cleaner_def n) (simp add: s2 b2 m t ne flip: demo_cleaner_def)
  have c1: "clean excerpt_db demo_md5 (demo_cleaner 1) ?raw = Inr ?r1"
    unfolding clean_def by (simp add: demo_cleaner_def n) (simp add: s1 b1 m t flip: demo_cleaner_def)
  have n2: "normalize_charset excerpt_db ?raw (target_charset (config (demo_cleaner 2))) = Inr ?raw"
    and n1: "normalize_charset excerpt_db ?raw (target_charset (config (demo_cleaner 1))) = Inr ?raw"
    using n by (simp_all add: demo_cleaner_def)
  have on: "dictionary (demo_cleaner 2) = Some demo_dict \<and> spellcheck (config (demo_cleaner 2))"
    "dictionary (demo_cleaner 1) = Some demo_dict \<and> spellcheck (config (demo_cleaner 1))"
    by (simp_all add: demo_cleaner_def)
  have "cleaned_text ?r2
      = corrected_text excerpt_db demo_dict (max_suggestion_distance (config (demo_cleaner 2))) ?raw
          (finditer 0 ?raw)"
    using distance_gate[OF n2 c2] on(1) by blast
  then have g2: "corrected_text excerpt_db demo_dict 2 ?raw (finditer 0 ?raw) = lit ''the cat the''"
    by (simp add: demo_cleaner_def)
  have "cleaned_text ?r1
      = corrected_text excerpt_db demo_dict (max_suggestion_distance (config (demo_cleaner 1))) ?raw
          (finditer 0 ?raw)"
    using distance_gate[OF n1 c1] on(2) by blast
  then have g1: "corrected_text excerpt_db demo_dict 1 ?raw (finditer 0 ?raw) = ?raw"
    by (simp add: demo_cleaner_def)
  have f: "finditer 0 ?raw = [(0, 3), (4, 7), (8, 11)]"
    by code_simp
  show ?thesis using c2 g2 c1 g1 f by simp
qed

text \<open>
  C1: replaying the edits of \<open>build_edits original cleaned\<close> on \<open>original\<close> gives \<open>cleaned\<close>,
  for every pair of strings; so for every raw text, configuration and dictionary for
  which \<open>clean\<close> returns, replaying its edit list on the raw text gives its cleaned text.
\<close>

theorem replay_round_trip:
  "apply_edits original (build_edits original cleaned) = Inr cleaned
   \<and> (clean U md5_hexdigest self raw_text = Inr r \<longrightarrow>
        apply_edits raw_text (build_edits raw_text (cleaned_text r)) = Inr (cleaned_text r)
        \<and> apply_edits raw_text (edits r) = Inr (cleaned_text r))"
proof (intro conjI impI)
  show "apply_edits original (build_edits original cleaned) = Inr cleaned"
    by (rule apply_build_edits)
next
  assume "clean U md5_hexdigest self raw_text = Inr r"
  then have "edits r = build_edits raw_text (cleaned_text r)"
    unfolding clean_def Let_def by (auto split: sum.splits prod.splits)
  then show "apply_edits raw_text (edits r) = Inr (cleaned_text r)"
    by (simp add: apply_build_edits)
next
  show "apply_edits raw_text (build_edits raw_text (cleaned_text r)) = Inr (cleaned_text r)"
    by (rule apply_build_edits)
qed

theorem replay_round_trip_witness:
  "clean excerpt_db demo_md5 (demo_cleaner 2) (lit ''teh cat teh'') =
     Inr \<lparr>cleaned_text = lit ''the cat the'',
          edits = [\<lparr>start = 1, end' = 1, replacement = lit ''h''\<rparr>,
                   \<lparr>start = 2, end' = 3, replacement = []\<rparr>,
                   \<lparr>start = 9, end' = 9, replacement = lit ''h''\<rparr>,
                   \<lparr>start = 10, end' = 11, replacement = []\<rparr>],
          input_md5 = replicate 32 CHR ''0'', output_md5 = replicate 32 CHR ''0'',
          changed = True,
          summary = \<lparr>edit_count = 4,
                      top_replacements =
                        [\<lparr>from' = lit ''teh'', to' = lit ''the'', count' = 2\<rparr>]\<rparr>\<rparr>
   \<and> apply_edits (lit ''teh cat teh'')
       [\<lparr>start = 1, end' = 1, replacement = lit ''h''\<rparr>,
        \<lparr>start = 2, end' = 3, replacement = []\<rparr>,
        \<lparr>start = 9, end' = 9, replacement = lit ''h''\<rparr>,
        \<lparr>start = 10, end' = 11, replacement = []\<rparr>] = Inr (lit ''the cat the'')"
proof -
  let ?r = "\<lparr>cleaned_text = lit ''the cat the'',
          edits = [\<lparr>start = 1, end' = 1, replacement = lit ''h''\<rparr>,
                   \<lparr>start = 2, end' = 3, replacement = []\<rparr>,
                   \<lparr>start = 9, end' = 9, replacement = lit ''h''\<rparr>,
                   \<lparr>start = 10, end' = 11, replacement = []\<rparr>],
          input_md5 = replicate 32 CHR ''0'', output_md5 = replicate 32 CHR ''0'',
          changed = True,
          summary = \<lparr>edit_count = 4,
                      top_replacements =
                        [\<lparr>from' = lit ''teh'', to' = lit ''the'', count' = 2\<rparr>]\<rparr>\<rparr>"
  have n: "normalize_charset excerpt_db (lit ''teh cat teh'') ''utf-8'' = Inr (lit ''teh cat teh'')"
    by (simp add: normalize_charset_eq recognized_def narrow_def keep_char_def category_def
        ascii_category_def normalize_NFKC_def is_ascii_def lit_def)
  have s: "spell_correct excerpt_db (demo_cleaner 2) (lit ''teh cat teh'')
      = (lit ''the cat the'', [((lit ''teh'', lit ''the''), 2)])"
    by code_simp
  have b: "build_edits (lit ''teh cat teh'') (lit ''the cat the'')
      = [\<lparr>start = 1, end' = 1, replacement = lit ''h''\<rparr>,
         \<lparr>start = 2, end' = 3, replacement = []\<rparr>,
         \<lparr>start = 9, end' = 9, replacement = lit ''h''\<rparr>,
         \<lparr>start = 10, end' = 11, replacement = []\<rparr>]"
    by code_simp
  have m: "md5_text demo_md5 (lit ''teh cat teh'') = Inr (replicate 32 CHR ''0'')"
    "md5_text demo_md5 (lit ''the cat the'') = Inr (replicate 32 CHR ''0'')"
    by (simp_all add: md5_text_def demo_md5_def lit_def)
  have t: "most_common 8 [((lit ''teh'', lit ''the''), 2)] = [((lit ''teh'', lit ''the''), 2)]"
    by (simp add: most_common_def)
  have ne: "lit ''teh cat teh'' \<noteq> lit ''the cat the''" by (simp add: lit_def)
  have c: "clean excerpt_db demo_md5 (demo_cleaner 2) (lit ''teh cat teh'') = Inr ?r"
    unfolding clean_def by (simp add: demo_cleaner_def n) (simp add: s b m t ne flip: demo_cleaner_def)
  have "apply_edits (lit ''teh cat teh'') (edits ?r) = Inr (cleaned_text ?r)"
    using replay_round_trip[of _ _ excerpt_db demo_md5 "demo_cleaner 2" "lit ''teh cat teh''" ?r] c
    by blast
  then show ?thesis using c by simp
qed


end
